theory Spec2Isabelle
  imports Main "HOL-Library.Sublist"
begin

section \<open>Text\<close>

text \<open>
  A Python \<open>str\<close> is a sequence of code points, and \<open>len\<close> counts code points, so a
  \<open>str\<close> is a list of natural numbers here. \<open>lit\<close> turns a literal of the source into
  its code points.
\<close>

type_synonym str = "nat list"

definition lit :: "string \<Rightarrow> str" where
  "lit s = map of_char s"

abbreviation NL :: nat where
  "NL \<equiv> 10"

text \<open>\<open>x in s\<close> on two strings: \<open>x\<close> occurs in \<open>s\<close> as a contiguous piece.\<close>

fun contains :: "str \<Rightarrow> str \<Rightarrow> bool" where
  "contains sub [] = (sub = [])"
| "contains sub (c # cs) = (prefix sub (c # cs) \<or> contains sub cs)"

definition endswith :: "str \<Rightarrow> str \<Rightarrow> bool" where
  "endswith s suf = prefix (rev suf) (rev s)"

text \<open>
  \<open>str.strip()\<close> removes the characters for which \<open>str.isspace\<close> holds from both ends.
\<close>

definition isspace :: "nat \<Rightarrow> bool" where
  "isspace c = (c \<in> set ([9, 10, 11, 12, 13, 28, 29, 30, 31, 32, 133, 160, 5760]
      @ [8192, 8193, 8194, 8195, 8196, 8197, 8198, 8199, 8200, 8201, 8202]
      @ [8232, 8233, 8239, 8287, 12288]))"

definition strip :: "str \<Rightarrow> str" where
  "strip s = rev (dropWhile isspace (rev (dropWhile isspace s)))"

fun join :: "str \<Rightarrow> str list \<Rightarrow> str" where
  "join sep [] = []"
| "join sep [x] = x"
| "join sep (x # y # ys) = x @ sep @ join sep (y # ys)"

text \<open>\<open>url.split('/')[-1]\<close>: what follows the last slash (the whole string without one).\<close>

definition split_last :: "str \<Rightarrow> str" where
  "split_last s = rev (takeWhile (\<lambda>c. c \<noteq> 47) (rev s))"

text \<open>
  \<open>re.sub(r'\n{3,}', '\n\n', content)\<close>. The scan goes left to right; at a position
  where three or more newlines start, the greedy match takes the whole run, two newlines are
  written, and the scan goes on behind the run. Anywhere else the character is copied.
\<close>

function re_sub_newlines :: "str \<Rightarrow> str" where
  "re_sub_newlines [] = []"
| "re_sub_newlines (c # cs) =
     (if 3 \<le> length (takeWhile (\<lambda>x. x = NL) (c # cs))
      then [NL, NL] @ re_sub_newlines (dropWhile (\<lambda>x. x = NL) (c # cs))
      else c # re_sub_newlines cs)"
  by pat_completeness auto
termination
  by (relation "measure length")
     (auto simp: less_Suc_eq_le length_dropWhile_le split: if_splits)

text \<open>The number of newlines a string starts with.\<close>

definition lead :: "str \<Rightarrow> nat" where
  "lead s = length (takeWhile (\<lambda>x. x = NL) s)"

section \<open>The parsed markup tree\<close>

text \<open>
  What \<open>BeautifulSoup(..., 'html.parser')\<close> returns: tags with a name, an attribute
  dictionary and contents, and text. The parser itself is a function of the environment.
\<close>

datatype node =
    Tag (tag_name: str) (attrs: "(str \<times> str) list") (contents: "node list")
  | Text str

text \<open>All nodes below a node, in document order.\<close>

fun descendants :: "node \<Rightarrow> node list" where
  "descendants (Text s) = []"
| "descendants (Tag t a cs) = concat (map (\<lambda>c. c # descendants c) cs)"

fun named :: "str list \<Rightarrow> node \<Rightarrow> bool" where
  "named ns (Tag t a cs) = (t \<in> set ns)"
| "named ns (Text s) = False"

fun attr :: "node \<Rightarrow> str \<Rightarrow> str option" where
  "attr (Tag t a cs) k = map_of a k"
| "attr (Text s) k = None"

text \<open>\<open>soup.find(...)\<close> is the first match among the descendants, or \<open>None\<close>.\<close>

definition find_node :: "(node \<Rightarrow> bool) \<Rightarrow> node \<Rightarrow> node option" where
  "find_node P n = List.find P (descendants n)"

definition find_all :: "(node \<Rightarrow> bool) \<Rightarrow> node \<Rightarrow> node list" where
  "find_all P n = filter P (descendants n)"

text \<open>
  \<open>for element in soup.find_all([...]): element.decompose()\<close>: every tag with one of the
  names is cut out of the tree, with all below it.
\<close>

fun decompose_all :: "str list \<Rightarrow> node \<Rightarrow> node" where
  "decompose_all ns (Text s) = Text s"
| "decompose_all ns (Tag t a cs) =
     Tag t a (map (decompose_all ns) (filter (\<lambda>c. \<not> named ns c) cs))"

text \<open>
  \<open>get_text(separator, strip=True)\<close>: the texts below the node, each stripped, the empty
  ones left out, joined by the separator.
\<close>

fun text_of :: "node \<Rightarrow> str list" where
  "text_of (Text s) = [s]"
| "text_of (Tag t a cs) = []"

definition get_text :: "str \<Rightarrow> node \<Rightarrow> str" where
  "get_text sep n =
     join sep (filter (\<lambda>s. s \<noteq> []) (map strip (concat (map text_of (descendants n)))))"

text \<open>
  \<open>class_=re.compile('a|b|c')\<close>: the pattern is searched in the class attribute, so the
  tag matches when one of the alternatives occurs in it, in the case it is written. A tag
  without a class attribute does not match.
\<close>

definition class_search :: "str list \<Rightarrow> node \<Rightarrow> bool" where
  "class_search kws n =
     (case attr n (lit ''class'') of
        None \<Rightarrow> False
      | Some c \<Rightarrow> list_ex (\<lambda>k. contains k c) kws)"

section \<open>Documents\<close>

datatype json =
    JNull
  | JBool bool
  | JInt int
  | JStr str
  | JArr "json list"
  | JObj "(str \<times> json) list"

record Document =
  source :: str
  url :: str
  title :: str
  content :: str
  metadata :: "(str \<times> json) list"

section \<open>The environment\<close>

text \<open>
  A call of \<open>requests.get\<close> is recorded with what it was given: the url, the headers and
  the timeout (\<open>None\<close> when the call passes none).
\<close>

record request =
  req_url :: str
  req_headers :: "(str \<times> str) list"
  req_timeout :: "nat option"

record response =
  status_code :: nat
  body :: str

text \<open>One entry of a directory listing, and the readme's metadata, as the API gives them.\<close>

record entry =
  e_type :: str
  e_name :: str
  e_path :: str
  e_download_url :: str
  e_html_url :: str

record readme_data =
  r_download_url :: str
  r_html_url :: str

text \<open>
  Everything outside the program. The network answers a request knowing all requests made
  before it, so the same url may be answered differently each time; \<open>None\<close> is a
  connection failure or a timeout, which \<open>requests.get\<close> raises. \<open>urljoin\<close> and
  \<open>urlparse(...).netloc\<close> are the standard library's, taken as total, the clock is read by
  \<open>time.strftime\<close>, \<open>set_order\<close> is the order in which Python lists a set, and the two
  decoders are \<open>response.json()\<close> (\<open>None\<close> when the body does not decode to that shape).
\<close>

record env =
  http_get :: "request list \<Rightarrow> request \<Rightarrow> response option"
  html_parser :: "str \<Rightarrow> node"
  urljoin :: "str \<Rightarrow> str \<Rightarrow> str"
  netloc :: "str \<Rightarrow> str"
  strftime :: "request list \<Rightarrow> str"
  set_order :: "str list \<Rightarrow> str list"
  json_listing :: "str \<Rightarrow> entry list option"
  json_readme :: "str \<Rightarrow> readme_data option"

datatype exn =
    RequestException
  | HTTPError nat
  | AttributeError
  | JSONDecodeError
  | UnicodeEncodeError

text \<open>\<open>response.raise_for_status()\<close> raises for a status from 400 to 599.\<close>

definition raise_for_status :: "response \<Rightarrow> bool" where
  "raise_for_status r = (400 \<le> status_code r \<and> status_code r < 600)"

definition get_request :: "str \<Rightarrow> (str \<times> str) list \<Rightarrow> nat option \<Rightarrow> request" where
  "get_request u h t = \<lparr>req_url = u, req_headers = h, req_timeout = t\<rparr>"

section \<open>Extracting one page\<close>

text \<open>The title: the first \<open>h1\<close>, else the \<open>title\<close> tag, else the url's last segment.\<close>

definition extract_title :: "node \<Rightarrow> str \<Rightarrow> str" where
  "extract_title soup u =
     (case find_node (named [lit ''h1'']) soup of
        Some h \<Rightarrow> get_text [] h
      | None \<Rightarrow>
          (case find_node (named [lit ''title'']) soup of
             Some t \<Rightarrow> get_text [] t
           | None \<Rightarrow> split_last u))"

definition or_else :: "'a option \<Rightarrow> 'a option \<Rightarrow> 'a option" where
  "or_else a b = (case a of Some x \<Rightarrow> Some x | None \<Rightarrow> b)"

text \<open>The content root of \<open>ReadTheDocsIngester._scrape_page\<close>, \<open>None\<close> when even
  \<open>soup.body\<close> is missing.\<close>

definition rtd_main_content :: "node \<Rightarrow> node option" where
  "rtd_main_content soup =
     or_else (find_node (\<lambda>n. named [lit ''div''] n \<and> attr n (lit ''role'') = Some (lit ''main'')) soup)
    (or_else (find_node (named [lit ''main'']) soup)
    (or_else (find_node (named [lit ''article'']) soup)
    (or_else (find_node (\<lambda>n. named [lit ''div''] n \<and>
                 class_search [lit ''content'', lit ''document'', lit ''body''] n) soup)
             (find_node (named [lit ''body'']) soup))))"

text \<open>The content root of \<open>WebsiteIngester._scrape_page\<close>.\<close>

definition website_main_content :: "node \<Rightarrow> node option" where
  "website_main_content soup =
     or_else (find_node (named [lit ''main'']) soup)
    (or_else (find_node (named [lit ''article'']) soup)
    (or_else (find_node (\<lambda>n. named [lit ''div''] n \<and>
                 class_search [lit ''content'', lit ''main'', lit ''article'', lit ''body''] n) soup)
             (find_node (named [lit ''body'']) soup)))"

definition page_metadata :: "env \<Rightarrow> request list \<Rightarrow> str \<Rightarrow> (str \<times> json) list" where
  "page_metadata e lg c =
     [(lit ''scraped_at'', JStr (strftime e lg)),
      (lit ''content_length'', JInt (int (length c)))]"

text \<open>
  \<open>ReadTheDocsIngester._scrape_page\<close>. The result is the exception raised or the
  Document, with the requests made so far. With no content root, \<open>main_content\<close> is
  \<open>None\<close> and \<open>main_content.get_text\<close> raises.
\<close>

definition ReadTheDocsIngester_scrape_page ::
  "env \<Rightarrow> str \<Rightarrow> request list \<Rightarrow> (exn + Document) \<times> request list" where
  "ReadTheDocsIngester_scrape_page e u lg =
     (let rq = get_request u [] (Some 10); lg' = lg @ [rq] in
      case http_get e lg rq of
        None \<Rightarrow> (Inl RequestException, lg')
      | Some r \<Rightarrow>
          if raise_for_status r then (Inl (HTTPError (status_code r)), lg')
          else
            (let soup = decompose_all
                   [lit ''nav'', lit ''footer'', lit ''script'', lit ''style'', lit ''aside'']
                   (html_parser e (body r));
                 t = extract_title soup u
             in case rtd_main_content soup of
                  None \<Rightarrow> (Inl AttributeError, lg')
                | Some m \<Rightarrow>
                    (let c = re_sub_newlines (get_text [NL] m)
                     in (Inr \<lparr>source = lit ''readthedocs'', url = u, title = t, content = c,
                               metadata = page_metadata e lg' c\<rparr>, lg'))))"

text \<open>
  \<open>WebsiteIngester._scrape_page\<close>. Here a missing content root gives the empty content.
\<close>

definition WebsiteIngester_scrape_page ::
  "env \<Rightarrow> str \<Rightarrow> request list \<Rightarrow> (exn + Document) \<times> request list" where
  "WebsiteIngester_scrape_page e u lg =
     (let rq = get_request u [] (Some 10); lg' = lg @ [rq] in
      case http_get e lg rq of
        None \<Rightarrow> (Inl RequestException, lg')
      | Some r \<Rightarrow>
          if raise_for_status r then (Inl (HTTPError (status_code r)), lg')
          else
            (let soup = decompose_all
                   [lit ''nav'', lit ''footer'', lit ''script'', lit ''style'', lit ''aside'',
                    lit ''header'']
                   (html_parser e (body r));
                 t = extract_title soup u;
                 c = re_sub_newlines
                       (case website_main_content soup of
                          Some m \<Rightarrow> get_text [NL] m
                        | None \<Rightarrow> [])
             in (Inr \<lparr>source = lit ''website'', url = u, title = t, content = c,
                       metadata = page_metadata e lg' c\<rparr>, lg')))"

section \<open>Discovering links\<close>

record ReadTheDocsIngester =
  rtd_base_url :: str
  rtd_max_pages :: int
  rtd_visited_urls :: "str set"

text \<open>\<open>__init__\<close>: the base url loses its trailing slashes, nothing is visited yet.\<close>

definition ReadTheDocsIngester_init :: "str \<Rightarrow> int \<Rightarrow> ReadTheDocsIngester" where
  "ReadTheDocsIngester_init b mp =
     \<lparr>rtd_base_url = rev (dropWhile (\<lambda>c. c = 47) (rev b)), rtd_max_pages = mp,
      rtd_visited_urls = {}\<rparr>"

record WebsiteIngester =
  web_start_url :: str
  web_allowed_domains :: "str list"
  web_max_pages :: int
  web_visited_urls :: "str set"

text \<open>
  \<open>__init__\<close>: \<open>allowed_domains or [urlparse(start_url).netloc]\<close>, so no list and the
  empty list both give the start url's own domain.
\<close>

definition WebsiteIngester_init ::
  "env \<Rightarrow> str \<Rightarrow> str list option \<Rightarrow> int \<Rightarrow> WebsiteIngester" where
  "WebsiteIngester_init e s ad mp =
     \<lparr>web_start_url = s,
      web_allowed_domains =
        (case ad of None \<Rightarrow> [netloc e s] | Some [] \<Rightarrow> [netloc e s] | Some ds \<Rightarrow> ds),
      web_max_pages = mp,
      web_visited_urls = {}\<rparr>"

text \<open>The \<open>href\<close> of every \<open>a\<close> tag that has one, joined to the current url.\<close>

definition hrefs :: "env \<Rightarrow> str \<Rightarrow> node \<Rightarrow> str list" where
  "hrefs e cur soup =
     concat (map (\<lambda>n. case attr n (lit ''href'') of
                          Some h \<Rightarrow> [urljoin e cur h]
                        | None \<Rightarrow> [])
                 (find_all (named [lit ''a'']) soup))"

text \<open>
  \<open>ReadTheDocsIngester._find_doc_links\<close>. The page is requested again; a failure of the
  request gives no links (the bare \<open>except\<close>); the status is not looked at.
\<close>

definition ReadTheDocsIngester_find_doc_links ::
  "env \<Rightarrow> ReadTheDocsIngester \<Rightarrow> str \<Rightarrow> request list \<Rightarrow> str list \<times> request list" where
  "ReadTheDocsIngester_find_doc_links e ing cur lg =
     (let rq = get_request cur [] (Some 10); lg' = lg @ [rq] in
      case http_get e lg rq of
        None \<Rightarrow> ([], lg')
      | Some r \<Rightarrow>
          (let links = filter
                 (\<lambda>full. netloc e full = netloc e (rtd_base_url ing) \<and>
                    35 \<notin> set full \<and>
                    \<not> list_ex (\<lambda>x. contains x full)
                        [lit ''search'', lit ''genindex'', lit ''_static''])
                 (hrefs e cur (html_parser e (body r)))
           in (set_order e (remdups links), lg')))"

text \<open>\<open>WebsiteIngester._find_links\<close>.\<close>

definition WebsiteIngester_find_links ::
  "env \<Rightarrow> WebsiteIngester \<Rightarrow> str \<Rightarrow> request list \<Rightarrow> str list \<times> request list" where
  "WebsiteIngester_find_links e ing cur lg =
     (let rq = get_request cur [] (Some 10); lg' = lg @ [rq] in
      case http_get e lg rq of
        None \<Rightarrow> ([], lg')
      | Some r \<Rightarrow>
          (let links = filter
                 (\<lambda>full. netloc e full \<in> set (web_allowed_domains ing) \<and> 35 \<notin> set full)
                 (hrefs e cur (html_parser e (body r)))
           in (set_order e (remdups links), lg')))"

section \<open>The crawl loop\<close>

text \<open>
  The two \<open>get_all_docs\<close> loops are the same code, but for the domain check of the
  website variant and for the functions they call. The loop is written once, over the
  check \<open>ok\<close>, the page scraper and the link finder. Its state is what the loop changes:
  the queue, the visited set, the documents, and the requests made.
\<close>

record crawl_state =
  to_visit :: "str list"
  visited :: "str set"
  documents :: "Document list"
  requests :: "request list"

type_synonym scraper = "str \<Rightarrow> request list \<Rightarrow> (exn + Document) \<times> request list"
type_synonym linker = "str \<Rightarrow> request list \<Rightarrow> str list \<times> request list"

text \<open>
  One turn of the loop body: pop the front url; skip it when visited; skip it when the
  check refuses it; else mark it visited and scrape it. An exception of the scraper is
  caught and leaves no document. A Document is always true in \<open>if doc\<close> (the dataclass
  defines neither \<open>__bool__\<close> nor \<open>__len__\<close>), so it is appended, and the links found
  that are not visited go to the back of the queue. The progress lines printed and the
  half second slept after a scrape change nothing the loop reads.
\<close>

definition crawl_step :: "(str \<Rightarrow> bool) \<Rightarrow> scraper \<Rightarrow> linker \<Rightarrow> crawl_state \<Rightarrow> crawl_state" where
  "crawl_step ok scrape links s =
     (case to_visit s of
        [] \<Rightarrow> s
      | u # rest \<Rightarrow>
          if u \<in> visited s then s\<lparr>to_visit := rest\<rparr>
          else if \<not> ok u then s\<lparr>to_visit := rest\<rparr>
          else
            (case scrape u (requests s) of
               (Inl ex, lg) \<Rightarrow>
                 s\<lparr>to_visit := rest, visited := insert u (visited s), requests := lg\<rparr>
             | (Inr doc, lg) \<Rightarrow>
                 (case links u lg of
                    (new_urls, lg') \<Rightarrow>
                      s\<lparr>to_visit := rest @ filter (\<lambda>v. v \<notin> insert u (visited s)) new_urls,
                        visited := insert u (visited s),
                        documents := documents s @ [doc],
                        requests := lg'\<rparr>)))"

definition running :: "int \<Rightarrow> crawl_state \<Rightarrow> bool" where
  "running mp s = (to_visit s \<noteq> [] \<and> int (length (documents s)) < mp)"

lemma crawl_step_decreases:
  assumes "running mp s"
  shows "((nat (mp - int (length (documents (crawl_step ok scrape links s)))),
           length (to_visit (crawl_step ok scrape links s))),
          (nat (mp - int (length (documents s))), length (to_visit s)))
         \<in> less_than <*lex*> less_than"
proof -
  from assms obtain u rest where q: "to_visit s = u # rest"
    by (cases "to_visit s") (auto simp: running_def)
  from assms have lt: "int (length (documents s)) < mp"
    by (simp add: running_def)
  show ?thesis
  proof (cases "u \<in> visited s \<or> \<not> ok u")
    case True
    then show ?thesis using q by (auto simp: crawl_step_def)
  next
    case False
    show ?thesis
    proof (cases "scrape u (requests s)")
      case (Pair r lg)
      show ?thesis
      proof (cases r)
        case (Inl ex)
        then show ?thesis using q False Pair by (auto simp: crawl_step_def)
      next
        case (Inr doc)
        obtain nu lg' where "links u lg = (nu, lg')" by (cases "links u lg")
        then show ?thesis using q False Pair Inr lt by (auto simp: crawl_step_def)
      qed
    qed
  qed
qed

function crawl_loop ::
  "(str \<Rightarrow> bool) \<Rightarrow> scraper \<Rightarrow> linker \<Rightarrow> int \<Rightarrow> crawl_state \<Rightarrow> crawl_state" where
  "crawl_loop ok scrape links mp s =
     (if running mp s then crawl_loop ok scrape links mp (crawl_step ok scrape links s)
      else s)"
  by pat_completeness auto
termination
  by (relation "inv_image (less_than <*lex*> less_than)
        (\<lambda>(ok, scrape, links, mp, s).
           (nat (mp - int (length (documents s))), length (to_visit s)))")
     (auto dest: crawl_step_decreases)

declare crawl_loop.simps [simp del]

text \<open>
  \<open>ReadTheDocsIngester.get_all_docs\<close>: the loop from the base url; the documents are
  returned, the visited set stays in the ingester, the queue is dropped.
\<close>

definition rtd_start :: "ReadTheDocsIngester \<Rightarrow> request list \<Rightarrow> crawl_state" where
  "rtd_start ing lg =
     \<lparr>to_visit = [rtd_base_url ing], visited = rtd_visited_urls ing, documents = [],
      requests = lg\<rparr>"

definition rtd_loop :: "env \<Rightarrow> ReadTheDocsIngester \<Rightarrow> crawl_state \<Rightarrow> crawl_state" where
  "rtd_loop e ing s =
     crawl_loop (\<lambda>u. True) (ReadTheDocsIngester_scrape_page e)
       (ReadTheDocsIngester_find_doc_links e ing) (rtd_max_pages ing) s"

definition ReadTheDocsIngester_get_all_docs ::
  "env \<Rightarrow> ReadTheDocsIngester \<Rightarrow> request list
     \<Rightarrow> Document list \<times> ReadTheDocsIngester \<times> request list" where
  "ReadTheDocsIngester_get_all_docs e ing lg =
     (let s = rtd_loop e ing (rtd_start ing lg)
      in (documents s, ing\<lparr>rtd_visited_urls := visited s\<rparr>, requests s))"

text \<open>\<open>WebsiteIngester.get_all_docs\<close>: the loop from the start url, with the domain check.\<close>

definition web_start :: "WebsiteIngester \<Rightarrow> request list \<Rightarrow> crawl_state" where
  "web_start ing lg =
     \<lparr>to_visit = [web_start_url ing], visited = web_visited_urls ing, documents = [],
      requests = lg\<rparr>"

definition web_loop :: "env \<Rightarrow> WebsiteIngester \<Rightarrow> crawl_state \<Rightarrow> crawl_state" where
  "web_loop e ing s =
     crawl_loop (\<lambda>u. netloc e u \<in> set (web_allowed_domains ing))
       (WebsiteIngester_scrape_page e) (WebsiteIngester_find_links e ing)
       (web_max_pages ing) s"

definition WebsiteIngester_get_all_docs ::
  "env \<Rightarrow> WebsiteIngester \<Rightarrow> request list
     \<Rightarrow> Document list \<times> WebsiteIngester \<times> request list" where
  "WebsiteIngester_get_all_docs e ing lg =
     (let s = web_loop e ing (web_start ing lg)
      in (documents s, ing\<lparr>web_visited_urls := visited s\<rparr>, requests s))"

text \<open>
  The states the loop goes through from a start state: the start, and the state after
  each turn taken while the loop condition holds.
\<close>

inductive loop_state ::
  "(str \<Rightarrow> bool) \<Rightarrow> scraper \<Rightarrow> linker \<Rightarrow> int \<Rightarrow> crawl_state \<Rightarrow> crawl_state \<Rightarrow> bool"
  for ok scrape links mp s0 where
    loop_start: "loop_state ok scrape links mp s0 s0"
  | loop_turn: "loop_state ok scrape links mp s0 s \<Longrightarrow> running mp s
        \<Longrightarrow> loop_state ok scrape links mp s0 (crawl_step ok scrape links s)"

text \<open>The loop states of the two crawlers, started with the requests made before.\<close>

definition rtd_crawl_state ::
  "env \<Rightarrow> ReadTheDocsIngester \<Rightarrow> request list \<Rightarrow> crawl_state \<Rightarrow> bool" where
  "rtd_crawl_state e ing lg s =
     loop_state (\<lambda>u. True) (ReadTheDocsIngester_scrape_page e)
       (ReadTheDocsIngester_find_doc_links e ing) (rtd_max_pages ing) (rtd_start ing lg) s"

definition web_crawl_state ::
  "env \<Rightarrow> WebsiteIngester \<Rightarrow> request list \<Rightarrow> crawl_state \<Rightarrow> bool" where
  "web_crawl_state e ing lg s =
     loop_state (\<lambda>u. netloc e u \<in> set (web_allowed_domains ing))
       (WebsiteIngester_scrape_page e) (WebsiteIngester_find_links e ing)
       (web_max_pages ing) (web_start ing lg) s"

text \<open>
  A state in which every url was taken up once at most: the documents have distinct
  urls, documents and requests are for visited urls only, and no url was requested more
  than twice (once for its content, once for its links).
\<close>

definition visits_once :: "crawl_state \<Rightarrow> bool" where
  "visits_once s =
     (distinct (map url (documents s))
      \<and> url ` set (documents s) \<subseteq> visited s
      \<and> req_url ` set (requests s) \<subseteq> visited s
      \<and> (\<forall>u. count_list (map req_url (requests s)) u \<le> 2))"

text \<open>The metadata of a scraped page: the time of capture and the length of the content.\<close>

definition has_page_metadata :: "Document \<Rightarrow> bool" where
  "has_page_metadata d =
     (map_of (metadata d) (lit ''content_length'') = Some (JInt (int (length (content d))))
      \<and> (\<exists>t. map_of (metadata d) (lit ''scraped_at'') = Some (JStr t)))"

section \<open>The repository fetcher\<close>

record GitHubIngester =
  repo_owner :: str
  repo_name :: str
  api_base :: str
  headers :: "(str \<times> str) list"

text \<open>\<open>__init__\<close>: the authorization header only with a token that is not empty.\<close>

definition GitHubIngester_init :: "str \<Rightarrow> str \<Rightarrow> str option \<Rightarrow> GitHubIngester" where
  "GitHubIngester_init owner name token =
     \<lparr>repo_owner = owner, repo_name = name,
      api_base = lit ''https://api.github.com/repos/'' @ owner @ lit ''/'' @ name,
      headers = (case token of
                   None \<Rightarrow> []
                 | Some t \<Rightarrow> if t = [] then []
                             else [(lit ''Authorization'', lit ''token '' @ t)])\<rparr>"

definition repo_full_name :: "GitHubIngester \<Rightarrow> str" where
  "repo_full_name ing = repo_owner ing @ lit ''/'' @ repo_name ing"

text \<open>
  The two API calls: \<open>requests.get(url, headers=self.headers, timeout=10)\<close> with
  \<open>url = f"{self.api_base}/readme"\<close> and with \<open>url = f"{self.api_base}/contents/{path}"\<close>.
\<close>

definition readme_request :: "GitHubIngester \<Rightarrow> request" where
  "readme_request ing = get_request (api_base ing @ lit ''/readme'') (headers ing) (Some 10)"

definition docs_request :: "GitHubIngester \<Rightarrow> str \<Rightarrow> request" where
  "docs_request ing path =
     get_request (api_base ing @ lit ''/contents/'' @ path) (headers ing) (Some 10)"

text \<open>
  \<open>GitHubIngester._get_readme\<close>. The whole body is inside \<open>try\<close>: every failure gives
  \<open>None\<close>. The metadata call passes the headers and \<open>timeout=10\<close>; the download is
  \<open>requests.get(data['download_url'])\<close>, with nothing else.
\<close>

definition GitHubIngester_get_readme ::
  "env \<Rightarrow> GitHubIngester \<Rightarrow> request list \<Rightarrow> Document option \<times> request list" where
  "GitHubIngester_get_readme e ing lg =
     (let rq = readme_request ing; lg1 = lg @ [rq]
      in case http_get e lg rq of
           None \<Rightarrow> (None, lg1)
         | Some r \<Rightarrow>
             if raise_for_status r then (None, lg1)
             else
               (case json_readme e (body r) of
                  None \<Rightarrow> (None, lg1)
                | Some d \<Rightarrow>
                    (let rq2 = get_request (r_download_url d) [] None; lg2 = lg1 @ [rq2]
                     in case http_get e lg1 rq2 of
                          None \<Rightarrow> (None, lg2)
                        | Some r2 \<Rightarrow>
                            (Some \<lparr>source = lit ''github'', url = r_html_url d,
                                   title = repo_name ing @ lit '' - README'',
                                   content = body r2,
                                   metadata =
                                     [(lit ''type'', JStr (lit ''readme'')),
                                      (lit ''repo'', JStr (repo_full_name ing)),
                                      (lit ''scraped_at'', JStr (strftime e lg2))]\<rparr>,
                             lg2))))"

text \<open>\<open>GitHubIngester._get_wiki_pages\<close>: the body only passes; the list stays empty.\<close>

definition GitHubIngester_get_wiki_pages :: "GitHubIngester \<Rightarrow> Document list" where
  "GitHubIngester_get_wiki_pages ing = []"

definition docs_file :: "env \<Rightarrow> GitHubIngester \<Rightarrow> entry \<Rightarrow> str \<Rightarrow> request list \<Rightarrow> Document" where
  "docs_file e ing it c lg =
     \<lparr>source = lit ''github'', url = e_html_url it, title = e_name it, content = c,
      metadata =
        [(lit ''type'', JStr (lit ''docs_file'')),
         (lit ''repo'', JStr (repo_full_name ing)),
         (lit ''path'', JStr (e_path it)),
         (lit ''scraped_at'', JStr (strftime e lg))]\<rparr>"

definition is_docs_name :: "str \<Rightarrow> bool" where
  "is_docs_name n =
     (endswith n (lit ''.md'') \<or> endswith n (lit ''.markdown'') \<or> endswith n (lit ''.rst''))"

text \<open>
  \<open>GitHubIngester._get_docs_directory\<close>. The function calls itself on every
  subdirectory the API lists, as deep as the listings go, so the depth is bounded by a
  fuel and \<open>None\<close> is the descent that goes deeper. The second function is the
  \<open>for item in items\<close> loop with the documents collected so far. Every failure inside
  \<open>try\<close> ends the call with the documents it has: a listing that cannot be fetched or
  decoded, a status \<open>raise_for_status\<close> refuses, a download that fails.
\<close>

fun GitHubIngester_get_docs_directory ::
  "env \<Rightarrow> GitHubIngester \<Rightarrow> nat \<Rightarrow> str \<Rightarrow> request list
     \<Rightarrow> (Document list \<times> request list) option"
and docs_items ::
  "env \<Rightarrow> GitHubIngester \<Rightarrow> nat \<Rightarrow> entry list \<Rightarrow> Document list \<Rightarrow> request list
     \<Rightarrow> (Document list \<times> request list) option" where
  "GitHubIngester_get_docs_directory e ing 0 path lg = None"
| "GitHubIngester_get_docs_directory e ing (Suc f) path lg =
     (let rq = docs_request ing path; lg1 = lg @ [rq]
      in case http_get e lg rq of
           None \<Rightarrow> Some ([], lg1)
         | Some r \<Rightarrow>
             if status_code r = 404 then Some ([], lg1)
             else if raise_for_status r then Some ([], lg1)
             else
               (case json_listing e (body r) of
                  None \<Rightarrow> Some ([], lg1)
                | Some items \<Rightarrow> docs_items e ing f items [] lg1))"
| "docs_items e ing f [] docs lg = Some (docs, lg)"
| "docs_items e ing f (it # its) docs lg =
     (if e_type it = lit ''file'' \<and> is_docs_name (e_name it) then
        (let rq = get_request (e_download_url it) [] None; lg1 = lg @ [rq]
         in case http_get e lg rq of
              None \<Rightarrow> Some (docs, lg1)
            | Some r \<Rightarrow>
                docs_items e ing f its (docs @ [docs_file e ing it (body r) lg1]) lg1)
      else if e_type it = lit ''dir'' then
        (case GitHubIngester_get_docs_directory e ing f (e_path it) lg of
           None \<Rightarrow> None
         | Some (sub, lg1) \<Rightarrow> docs_items e ing f its (docs @ sub) lg1)
      else docs_items e ing f its docs lg)"

text \<open>
  \<open>GitHubIngester.get_all_docs\<close>: the readme when there is one, the wiki pages, the
  files of \<open>docs\<close>.
\<close>

definition GitHubIngester_get_all_docs ::
  "env \<Rightarrow> GitHubIngester \<Rightarrow> nat \<Rightarrow> request list
     \<Rightarrow> (Document list \<times> request list) option" where
  "GitHubIngester_get_all_docs e ing fuel lg =
     (case GitHubIngester_get_readme e ing lg of
        (readme, lg1) \<Rightarrow>
          (let documents0 = (case readme of None \<Rightarrow> [] | Some d \<Rightarrow> [d]);
               wiki_pages = GitHubIngester_get_wiki_pages ing
           in case GitHubIngester_get_docs_directory e ing fuel (lit ''docs'') lg1 of
                None \<Rightarrow> None
              | Some (docs_files, lg2) \<Rightarrow>
                  Some (documents0 @ wiki_pages @ docs_files, lg2)))"

section \<open>Persistence\<close>

text \<open>
  \<open>json.dump(..., indent=2, ensure_ascii=False)\<close> on the values of the model. A string
  is written between quotes; the quote, the backslash and the control characters below 32
  are escaped, every other character is written as it is. A list or dict that is not
  empty is written with each item on a line of its own, two spaces deeper than the
  bracket, the items separated by a comma at the end of the line, a key and its value by a
  colon and a space.
\<close>

definition hexdigit :: "nat \<Rightarrow> nat" where
  "hexdigit d = (if d < 10 then 48 + d else 87 + d)"

definition escape_char :: "nat \<Rightarrow> str" where
  "escape_char c =
     (if c = 34 then [92, 34]
      else if c = 92 then [92, 92]
      else if c = 10 then [92, 110]
      else if c = 13 then [92, 114]
      else if c = 9 then [92, 116]
      else if c = 8 then [92, 98]
      else if c = 12 then [92, 102]
      else if c < 32 then [92, 117, 48, 48, hexdigit (c div 16), hexdigit (c mod 16)]
      else [c])"

definition encode_string :: "str \<Rightarrow> str" where
  "encode_string s = [34] @ concat (map escape_char s) @ [34]"

text \<open>\<open>str(n)\<close> for a natural number: its decimal digits.\<close>

function digits :: "nat \<Rightarrow> str" where
  "digits n = (if n < 10 then [48 + n] else digits (n div 10) @ [48 + n mod 10])"
  by pat_completeness auto
termination
  by (relation "measure id") auto

definition encode_int :: "int \<Rightarrow> str" where
  "encode_int i = (if i < 0 then 45 # digits (nat (- i)) else digits (nat i))"

definition newline_indent :: "nat \<Rightarrow> str" where
  "newline_indent level = NL # replicate (2 * level) 32"

fun dump :: "nat \<Rightarrow> json \<Rightarrow> str"
and dump_items :: "nat \<Rightarrow> json list \<Rightarrow> str"
and dump_pairs :: "nat \<Rightarrow> (str \<times> json) list \<Rightarrow> str" where
  "dump level JNull = lit ''null''"
| "dump level (JBool b) = (if b then lit ''true'' else lit ''false'')"
| "dump level (JInt i) = encode_int i"
| "dump level (JStr s) = encode_string s"
| "dump level (JArr vs) =
     (if vs = [] then lit ''[]''
      else [91] @ newline_indent (Suc level) @ dump_items (Suc level) vs
           @ newline_indent level @ [93])"
| "dump level (JObj kvs) =
     (if kvs = [] then lit ''{}''
      else [123] @ newline_indent (Suc level) @ dump_pairs (Suc level) kvs
           @ newline_indent level @ [125])"
| "dump_items level [] = []"
| "dump_items level (v # vs) =
     dump level v @ (if vs = [] then [] else [44] @ newline_indent level @ dump_items level vs)"
| "dump_pairs level [] = []"
| "dump_pairs level (kv # kvs) =
     encode_string (fst kv) @ [58, 32] @ dump level (snd kv)
     @ (if kvs = [] then [] else [44] @ newline_indent level @ dump_pairs level kvs)"

text \<open>\<open>Document.to_dict\<close>: \<open>asdict\<close> lists the fields in the order of the class.\<close>

definition to_dict :: "Document \<Rightarrow> json" where
  "to_dict d =
     JObj [(lit ''source'', JStr (source d)), (lit ''url'', JStr (url d)),
           (lit ''title'', JStr (title d)), (lit ''content'', JStr (content d)),
           (lit ''metadata'', JObj (metadata d))]"

text \<open>
  \<open>json.load\<close> on such a text, in two steps: the text is cut into tokens, and the
  tokens are read as a value. Numbers with a fraction or an exponent are floats, which the
  model does not have: they give \<open>None\<close>, as every text that is not JSON does.
\<close>

datatype token =
    TLBrack | TRBrack | TLBrace | TRBrace | TComma | TColon
  | TStr str | TInt int | TNull | TTrue | TFalse

definition is_digit :: "nat \<Rightarrow> bool" where
  "is_digit c = (48 \<le> c \<and> c \<le> 57)"

definition hexval :: "nat \<Rightarrow> nat option" where
  "hexval c =
     (if 48 \<le> c \<and> c \<le> 57 then Some (c - 48)
      else if 97 \<le> c \<and> c \<le> 102 then Some (c - 87)
      else if 65 \<le> c \<and> c \<le> 70 then Some (c - 55)
      else None)"

definition hex4 :: "nat \<Rightarrow> nat \<Rightarrow> nat \<Rightarrow> nat \<Rightarrow> nat option" where
  "hex4 a b c d =
     (case (hexval a, hexval b, hexval c, hexval d) of
        (Some w, Some x, Some y, Some z) \<Rightarrow> Some (((w * 16 + x) * 16 + y) * 16 + z)
      | _ \<Rightarrow> None)"

definition unescape :: "nat \<Rightarrow> nat option" where
  "unescape e =
     (if e = 34 then Some 34 else if e = 92 then Some 92 else if e = 47 then Some 47
      else if e = 98 then Some 8 else if e = 102 then Some 12 else if e = 110 then Some 10
      else if e = 114 then Some 13 else if e = 116 then Some 9 else None)"

text \<open>A low surrogate written as an escape right after a high one joins it.\<close>

definition low_surrogate :: "str \<Rightarrow> (nat \<times> str) option" where
  "low_surrogate cs =
     (case cs of
        b # u # a # b' # c # d # rest \<Rightarrow>
          if b = 92 \<and> u = 117 then
            (case hex4 a b' c d of
               Some lo \<Rightarrow> if 56320 \<le> lo \<and> lo \<le> 57343 then Some (lo, rest) else None
             | None \<Rightarrow> None)
          else None
      | _ \<Rightarrow> None)"

text \<open>What stands behind a backslash: the character it means, and the text after it.\<close>

definition scan_escape :: "str \<Rightarrow> (nat \<times> str) option" where
  "scan_escape cs =
     (case cs of
        [] \<Rightarrow> None
      | e # cs1 \<Rightarrow>
          if e = 117 then
            (case cs1 of
               a # b # c # d # cs2 \<Rightarrow>
                 (case hex4 a b c d of
                    None \<Rightarrow> None
                  | Some uni \<Rightarrow>
                      (case (if 55296 \<le> uni \<and> uni \<le> 56319 then low_surrogate cs2 else None) of
                         Some (lo, cs3) \<Rightarrow>
                           Some (65536 + (uni - 55296) * 1024 + (lo - 56320), cs3)
                       | None \<Rightarrow> Some (uni, cs2)))
             | _ \<Rightarrow> None)
          else
            (case unescape e of
               None \<Rightarrow> None
             | Some ch \<Rightarrow> Some (ch, cs1)))"

lemma low_surrogate_length:
  "low_surrogate cs = Some (lo, rest) \<Longrightarrow> length rest < length cs"
  by (auto simp: low_surrogate_def split: list.splits if_splits option.splits)

lemma scan_escape_length:
  "scan_escape cs = Some (ch, rest) \<Longrightarrow> length rest < length cs"
  by (auto simp: scan_escape_def split: list.splits if_splits option.splits
      dest: low_surrogate_length)

function scan_string :: "str \<Rightarrow> (str \<times> str) option" where
  "scan_string [] = None"
| "scan_string (c # cs) =
     (if c = 34 then Some ([], cs)
      else if c = 92 then
        (case scan_escape cs of
           None \<Rightarrow> None
         | Some (ch, rest) \<Rightarrow> map_option (\<lambda>(s, r). (ch # s, r)) (scan_string rest))
      else if c < 32 then None
      else map_option (\<lambda>(s, r). (c # s, r)) (scan_string cs))"
  by pat_completeness auto
termination
  by (relation "measure length") (auto dest: scan_escape_length)

definition digits_value :: "str \<Rightarrow> nat" where
  "digits_value ds = foldl (\<lambda>a d. 10 * a + (d - 48)) 0 ds"

definition scan_nat :: "str \<Rightarrow> (nat \<times> str) option" where
  "scan_nat cs =
     (let ds = takeWhile is_digit cs; rest = dropWhile is_digit cs
      in if ds = [] then None
         else if hd ds = 48 \<and> 1 < length ds then None
         else if rest \<noteq> [] \<and> hd rest \<in> {46, 101, 69} then None
         else Some (digits_value ds, rest))"

lemma scan_nat_length:
  "scan_nat cs = Some (n, rest) \<Longrightarrow> length rest < length cs"
proof -
  assume a: "scan_nat cs = Some (n, rest)"
  then have "takeWhile is_digit cs \<noteq> []" "rest = dropWhile is_digit cs"
    by (auto simp: scan_nat_def Let_def split: if_splits)
  then show ?thesis
    using takeWhile_dropWhile_id [of is_digit cs, symmetric]
    by (metis add.commute append_eq_conv_conj length_append length_drop less_add_same_cancel1
        length_greater_0_conv zero_less_diff diff_add_inverse2)
qed

lemma scan_string_length:
  "scan_string cs = Some (s, rest) \<Longrightarrow> length rest < length cs"
proof (induction cs arbitrary: s rest rule: scan_string.induct)
  case 1
  then show ?case by simp
next
  case (2 c cs)
  then show ?case
    by (fastforce split: if_splits option.splits dest: scan_escape_length)
qed

text \<open>The text as tokens. White space between tokens is skipped.\<close>

function tokenize :: "str \<Rightarrow> token list option" where
  "tokenize [] = Some []"
| "tokenize (c # cs) =
     (if c \<in> {32, 9, 10, 13} then tokenize cs
      else if c = 91 then map_option (Cons TLBrack) (tokenize cs)
      else if c = 93 then map_option (Cons TRBrack) (tokenize cs)
      else if c = 123 then map_option (Cons TLBrace) (tokenize cs)
      else if c = 125 then map_option (Cons TRBrace) (tokenize cs)
      else if c = 44 then map_option (Cons TComma) (tokenize cs)
      else if c = 58 then map_option (Cons TColon) (tokenize cs)
      else if c = 34 then
        (case scan_string cs of
           None \<Rightarrow> None
         | Some (s, rest) \<Rightarrow> map_option (Cons (TStr s)) (tokenize rest))
      else if c = 45 then
        (case scan_nat cs of
           None \<Rightarrow> None
         | Some (n, rest) \<Rightarrow> map_option (Cons (TInt (- int n))) (tokenize rest))
      else if is_digit c then
        (case scan_nat (c # cs) of
           None \<Rightarrow> None
         | Some (n, rest) \<Rightarrow> map_option (Cons (TInt (int n))) (tokenize rest))
      else if prefix (lit ''null'') (c # cs) then map_option (Cons TNull) (tokenize (drop 3 cs))
      else if prefix (lit ''true'') (c # cs) then map_option (Cons TTrue) (tokenize (drop 3 cs))
      else if prefix (lit ''false'') (c # cs) then map_option (Cons TFalse) (tokenize (drop 4 cs))
      else None)"
  by pat_completeness auto
termination
  by (relation "measure length")
     (auto dest: scan_string_length scan_nat_length)

text \<open>
  A Python dict built from pairs in order: a key that comes again keeps its place and
  takes the later value.
\<close>

definition dict_set :: "(str \<times> json) list \<Rightarrow> str \<times> json \<Rightarrow> (str \<times> json) list" where
  "dict_set d kv =
     (if fst kv \<in> fst ` set d then map (\<lambda>p. if fst p = fst kv then kv else p) d
      else d @ [kv])"

definition py_dict :: "(str \<times> json) list \<Rightarrow> (str \<times> json) list" where
  "py_dict kvs = foldl dict_set [] kvs"

text \<open>
  The value a list of tokens starts with, and the tokens after it. Every call takes one
  unit of fuel; a list of tokens needs no more fuel than it has tokens.
\<close>

fun parse_value :: "nat \<Rightarrow> token list \<Rightarrow> (json \<times> token list) option"
and parse_items :: "nat \<Rightarrow> token list \<Rightarrow> (json list \<times> token list) option"
and parse_pairs :: "nat \<Rightarrow> token list \<Rightarrow> ((str \<times> json) list \<times> token list) option" where
  "parse_value 0 ts = None"
| "parse_value (Suc f) [] = None"
| "parse_value (Suc f) (t # ts) =
     (case t of
        TNull \<Rightarrow> Some (JNull, ts)
      | TTrue \<Rightarrow> Some (JBool True, ts)
      | TFalse \<Rightarrow> Some (JBool False, ts)
      | TInt i \<Rightarrow> Some (JInt i, ts)
      | TStr s \<Rightarrow> Some (JStr s, ts)
      | TLBrack \<Rightarrow>
          (case ts of
             TRBrack # ts' \<Rightarrow> Some (JArr [], ts')
           | _ \<Rightarrow> map_option (\<lambda>(vs, r). (JArr vs, r)) (parse_items f ts))
      | TLBrace \<Rightarrow>
          (case ts of
             TRBrace # ts' \<Rightarrow> Some (JObj [], ts')
           | _ \<Rightarrow> map_option (\<lambda>(kvs, r). (JObj (py_dict kvs), r)) (parse_pairs f ts))
      | _ \<Rightarrow> None)"
| "parse_items 0 ts = None"
| "parse_items (Suc f) ts =
     (case parse_value f ts of
        None \<Rightarrow> None
      | Some (v, r) \<Rightarrow>
          (case r of
             TComma # r' \<Rightarrow> map_option (\<lambda>(vs, r''). (v # vs, r'')) (parse_items f r')
           | TRBrack # r' \<Rightarrow> Some ([v], r')
           | _ \<Rightarrow> None))"
| "parse_pairs 0 ts = None"
| "parse_pairs (Suc f) ts =
     (case ts of
        TStr k # TColon # ts' \<Rightarrow>
          (case parse_value f ts' of
             None \<Rightarrow> None
           | Some (v, r) \<Rightarrow>
               (case r of
                  TComma # r' \<Rightarrow> map_option (\<lambda>(kvs, r''). ((k, v) # kvs, r'')) (parse_pairs f r')
                | TRBrace # r' \<Rightarrow> Some ([(k, v)], r')
                | _ \<Rightarrow> None))
      | _ \<Rightarrow> None)"

text \<open>\<open>json.loads\<close>: one value, and nothing but white space after it.\<close>

definition json_loads :: "str \<Rightarrow> json option" where
  "json_loads s =
     (case tokenize s of
        None \<Rightarrow> None
      | Some ts \<Rightarrow>
          (case parse_value (length ts) ts of
             Some (v, []) \<Rightarrow> Some v
           | _ \<Rightarrow> None))"

definition json_dumps :: "json \<Rightarrow> str" where
  "json_dumps v = dump 0 v"

text \<open>A text after which a number ends: it does not go on with a digit, a point or an exponent.\<close>

definition stops :: "str \<Rightarrow> bool" where
  "stops rest = (rest = [] \<or> (\<not> is_digit (hd rest) \<and> hd rest \<notin> {46, 101, 69}))"

text \<open>The tokens \<open>dump\<close> writes for a value.\<close>

fun toks :: "json \<Rightarrow> token list"
and toks_items :: "json list \<Rightarrow> token list"
and toks_pairs :: "(str \<times> json) list \<Rightarrow> token list" where
  "toks JNull = [TNull]"
| "toks (JBool b) = (if b then [TTrue] else [TFalse])"
| "toks (JInt i) = [TInt i]"
| "toks (JStr s) = [TStr s]"
| "toks (JArr vs) = TLBrack # toks_items vs @ [TRBrack]"
| "toks (JObj kvs) = TLBrace # toks_pairs kvs @ [TRBrace]"
| "toks_items [] = []"
| "toks_items (v # vs) = toks v @ (if vs = [] then [] else TComma # toks_items vs)"
| "toks_pairs [] = []"
| "toks_pairs (kv # kvs) =
     TStr (fst kv) # TColon # toks (snd kv) @ (if kvs = [] then [] else TComma # toks_pairs kvs)"

text \<open>The fuel that reading the tokens of a value takes.\<close>

fun need :: "json \<Rightarrow> nat"
and need_items :: "json list \<Rightarrow> nat"
and need_pairs :: "(str \<times> json) list \<Rightarrow> nat" where
  "need (JArr vs) = Suc (need_items vs)"
| "need (JObj kvs) = Suc (need_pairs kvs)"
| "need JNull = 1"
| "need (JBool b) = 1"
| "need (JInt i) = 1"
| "need (JStr s) = 1"
| "need_items [] = 0"
| "need_items (v # vs) = Suc (max (need v) (need_items vs))"
| "need_pairs [] = 0"
| "need_pairs (kv # kvs) = Suc (max (need (snd kv)) (need_pairs kvs))"

text \<open>
  An association list stands for a Python dict when its keys are distinct; \<open>dict_like\<close>
  says so of every dict in a value.
\<close>

fun dict_like :: "json \<Rightarrow> bool"
and dict_like_items :: "json list \<Rightarrow> bool"
and dict_like_pairs :: "(str \<times> json) list \<Rightarrow> bool" where
  "dict_like (JArr vs) = dict_like_items vs"
| "dict_like (JObj kvs) = (distinct (map fst kvs) \<and> dict_like_pairs kvs)"
| "dict_like v = True"
| "dict_like_items [] = True"
| "dict_like_items (v # vs) = (dict_like v \<and> dict_like_items vs)"
| "dict_like_pairs [] = True"
| "dict_like_pairs (kv # kvs) = (dict_like (snd kv) \<and> dict_like_pairs kvs)"

text \<open>
  A surrogate code point cannot be encoded as UTF-8. \<open>encodable\<close> says of a value that
  none of its strings and keys holds one.
\<close>

definition surrogate :: "nat \<Rightarrow> bool" where
  "surrogate c = (55296 \<le> c \<and> c \<le> 57343)"

fun encodable :: "json \<Rightarrow> bool"
and encodable_items :: "json list \<Rightarrow> bool"
and encodable_pairs :: "(str \<times> json) list \<Rightarrow> bool" where
  "encodable (JStr s) = (\<not> list_ex surrogate s)"
| "encodable (JArr vs) = encodable_items vs"
| "encodable (JObj kvs) = encodable_pairs kvs"
| "encodable v = True"
| "encodable_items [] = True"
| "encodable_items (v # vs) = (encodable v \<and> encodable_items vs)"
| "encodable_pairs [] = True"
| "encodable_pairs (kv # kvs) =
     (\<not> list_ex surrogate (fst kv) \<and> encodable (snd kv) \<and> encodable_pairs kvs)"

text \<open>
  \<open>save_documents\<close>. The files are a map from paths to texts. The file is opened with
  \<open>'w'\<close> and \<open>encoding='utf-8'\<close>, so what it held is gone and the text written is its
  whole content; writing a surrogate code point raises. Opening the file is taken to
  succeed, and what a failed write leaves of the file is not described.
\<close>

type_synonym files = "str \<rightharpoonup> str"

definition save_documents :: "Document list \<Rightarrow> str \<Rightarrow> files \<Rightarrow> exn + files" where
  "save_documents docs output_file fs =
     (let text = json_dumps (JArr (map to_dict docs))
      in if list_ex surrogate text then Inl UnicodeEncodeError
         else Inr (fs(output_file \<mapsto> text)))"

text \<open>Reading the file back: \<open>json.load(open(output_file, encoding='utf-8'))\<close>.\<close>

definition load_documents :: "str \<Rightarrow> files \<Rightarrow> json option" where
  "load_documents output_file fs =
     (case fs output_file of None \<Rightarrow> None | Some text \<Rightarrow> json_loads text)"

section \<open>A small site and a small repository\<close>

text \<open>
  A concrete environment to run the definitions on. The site has the page \<open>a/\<close>, which
  links to \<open>a/x\<close> and \<open>a/y\<close> on its own domain and to \<open>b/z\<close> on another; the domain of
  a url is what stands before its first slash, and a page's body is its url (the url
  \<open>a\<close> answers with the page \<open>a/\<close>). The page \<open>a/y\<close> is a fragment without a body tag.
\<close>

definition demo_page :: "str \<Rightarrow> node" where
  "demo_page b =
     (if b = lit ''a/'' then
        Tag (lit ''[document]'') []
          [Tag (lit ''body'') []
             [Tag (lit ''h1'') [] [Text (lit ''Intro'')],
              Tag (lit ''nav'') [] [Text (lit ''menu'')],
              Tag (lit ''main'') [] [Text (lit ''Hello'' @ [NL, NL, NL, NL] @ lit ''World'')],
              Tag (lit ''a'') [(lit ''href'', lit ''a/x'')] [],
              Tag (lit ''a'') [(lit ''href'', lit ''a/y'')] [],
              Tag (lit ''a'') [(lit ''href'', lit ''b/z'')] []]]
      else if b = lit ''a/y'' then
        Tag (lit ''[document]'') [] [Tag (lit ''p'') [] [Text b]]
      else Tag (lit ''[document]'') [] [Tag (lit ''body'') [] [Text b]])"

definition demo_get :: "request list \<Rightarrow> request \<Rightarrow> response option" where
  "demo_get lg rq =
     (if req_url rq \<in> set [lit ''a/'', lit ''a/x'', lit ''a/y'', lit ''b/z'', lit ''raw'']
      then Some \<lparr>status_code = 200, body = req_url rq\<rparr>
      else if req_url rq = lit ''a''
      then Some \<lparr>status_code = 200, body = lit ''a/''\<rparr>
      else if req_url rq = lit ''https://api.github.com/repos/o/n/readme''
      then Some \<lparr>status_code = 200, body = lit ''readme''\<rparr>
      else if req_url rq = lit ''https://api.github.com/repos/o/n/contents/docs''
      then Some \<lparr>status_code = 200, body = lit ''docs''\<rparr>
      else if req_url rq = lit ''https://api.github.com/repos/o/n/contents/docs/sub''
      then Some \<lparr>status_code = 500, body = []\<rparr>
      else if req_url rq = lit ''https://api.github.com/repos/o/m/contents/docs''
      then Some \<lparr>status_code = 404, body = []\<rparr>
      else None)"

definition demo_listing :: "str \<Rightarrow> entry list option" where
  "demo_listing b =
     (if b = lit ''docs'' then
        Some [\<lparr>e_type = lit ''dir'', e_name = lit ''sub'', e_path = lit ''docs/sub'',
               e_download_url = [], e_html_url = lit ''h/sub''\<rparr>,
              \<lparr>e_type = lit ''file'', e_name = lit ''a.md'', e_path = lit ''docs/a.md'',
               e_download_url = lit ''raw'', e_html_url = lit ''h/a.md''\<rparr>]
      else None)"

definition demo_readme :: "str \<Rightarrow> readme_data option" where
  "demo_readme b =
     (if b = lit ''readme'' then Some \<lparr>r_download_url = lit ''raw'', r_html_url = lit ''h/readme''\<rparr>
      else None)"

definition demo_env :: env where
  "demo_env =
     \<lparr>http_get = demo_get, html_parser = demo_page, urljoin = (\<lambda>cur h. h),
      netloc = takeWhile (\<lambda>c. c \<noteq> 47), strftime = (\<lambda>lg. lit ''now''),
      set_order = (\<lambda>us. us), json_listing = demo_listing, json_readme = demo_readme\<rparr>"

text \<open>The Document both scrapers make of the page \<open>a/\<close>, but for source and url.\<close>

definition demo_intro :: "str \<Rightarrow> str \<Rightarrow> Document" where
  "demo_intro src u =
     \<lparr>source = src, url = u, title = lit ''Intro'',
      content = lit ''Hello'' @ [NL, NL] @ lit ''World'',
      metadata = [(lit ''scraped_at'', JStr (lit ''now'')), (lit ''content_length'', JInt 12)]\<rparr>"

text \<open>A Document of a page without title and heading.\<close>

definition demo_leaf :: "str \<Rightarrow> str \<Rightarrow> str \<Rightarrow> str \<Rightarrow> Document" where
  "demo_leaf src u t c =
     \<lparr>source = src, url = u, title = t, content = c,
      metadata = [(lit ''scraped_at'', JStr (lit ''now'')),
                  (lit ''content_length'', JInt (int (length c)))]\<rparr>"

text \<open>
  The website crawl of the site with a budget of ten pages and the state its loop ends in:
  three documents, two requests for each of the three pages, none for \<open>b/z\<close>.
\<close>

definition demo_web :: WebsiteIngester where
  "demo_web = WebsiteIngester_init demo_env (lit ''a/'') None 10"

definition demo_web_final :: crawl_state where
  "demo_web_final =
     \<lparr>to_visit = [],
      visited = {lit ''a/y'', lit ''a/x'', lit ''a/''},
      documents = [demo_intro (lit ''website'') (lit ''a/''),
                   demo_leaf (lit ''website'') (lit ''a/x'') (lit ''x'') (lit ''a/x''),
                   demo_leaf (lit ''website'') (lit ''a/y'') (lit ''y'') []],
      requests = map (\<lambda>u. get_request u [] (Some 10))
                   [lit ''a/'', lit ''a/'', lit ''a/x'', lit ''a/x'', lit ''a/y'', lit ''a/y'']\<rparr>"

text \<open>
  The same crawl and the doc-site crawl with a budget of one page: the loop ends with
  the two links of the first page still in the queue.
\<close>

definition demo_web1 :: WebsiteIngester where
  "demo_web1 = WebsiteIngester_init demo_env (lit ''a/'') (Some [lit ''a'']) 1"

definition demo_web1_final :: crawl_state where
  "demo_web1_final =
     \<lparr>to_visit = [lit ''a/x'', lit ''a/y''],
      visited = {lit ''a/''},
      documents = [demo_intro (lit ''website'') (lit ''a/'')],
      requests = map (\<lambda>u. get_request u [] (Some 10)) [lit ''a/'', lit ''a/'']\<rparr>"

definition demo_rtd1 :: ReadTheDocsIngester where
  "demo_rtd1 = ReadTheDocsIngester_init (lit ''a/'') 1"

definition demo_rtd1_final :: crawl_state where
  "demo_rtd1_final =
     \<lparr>to_visit = [lit ''a/x'', lit ''a/y''],
      visited = {lit ''a''},
      documents = [demo_intro (lit ''readthedocs'') (lit ''a'')],
      requests = map (\<lambda>u. get_request u [] (Some 10)) [lit ''a'', lit ''a'']\<rparr>"

text \<open>
  Two repositories: \<open>o/n\<close> has a readme and a \<open>docs\<close> directory with a subdirectory
  whose listing fails and the file \<open>a.md\<close>; \<open>o/m\<close> has neither.
\<close>

definition demo_repo :: GitHubIngester where
  "demo_repo = GitHubIngester_init (lit ''o'') (lit ''n'') None"

definition demo_repo_empty :: GitHubIngester where
  "demo_repo_empty = GitHubIngester_init (lit ''o'') (lit ''m'') None"

definition demo_sub :: entry where
  "demo_sub = \<lparr>e_type = lit ''dir'', e_name = lit ''sub'', e_path = lit ''docs/sub'',
               e_download_url = [], e_html_url = lit ''h/sub''\<rparr>"

definition demo_file :: entry where
  "demo_file = \<lparr>e_type = lit ''file'', e_name = lit ''a.md'', e_path = lit ''docs/a.md'',
               e_download_url = lit ''raw'', e_html_url = lit ''h/a.md''\<rparr>"

text \<open>Two documents to save; the second has non-ASCII characters in its content.\<close>

definition demo_saved :: "Document list" where
  "demo_saved = [demo_intro (lit ''website'') (lit ''a/''),
                 demo_leaf (lit ''website'') (lit ''a/z'') (lit ''z'') [233, 8364, NL]]"

section \<open>The content root as the specification words it\<close>

text \<open>
  Not from the source: the selection of the content root as the specification describes
  it, one rule for both crawlers. The root is the first element with the role
  \<open>main\<close>, else the first \<open>main\<close> element, else the first \<open>article\<close> element, else
  the first element whose class attribute, letter case ignored, holds one of the keywords
  \<open>content\<close>, \<open>document\<close>, \<open>main\<close>, \<open>article\<close>, \<open>body\<close>, else the body; the content is
  empty when there is none.
\<close>

definition lower :: "nat \<Rightarrow> nat" where
  "lower c = (if 65 \<le> c \<and> c \<le> 90 then c + 32 else c)"

definition spec_class_match :: "node \<Rightarrow> bool" where
  "spec_class_match n =
     (case attr n (lit ''class'') of
        None \<Rightarrow> False
      | Some c \<Rightarrow>
          list_ex (\<lambda>k. contains k (map lower c))
            [lit ''content'', lit ''document'', lit ''main'', lit ''article'', lit ''body''])"

definition spec_main_content :: "node \<Rightarrow> node option" where
  "spec_main_content soup =
     or_else (find_node (\<lambda>n. attr n (lit ''role'') = Some (lit ''main'')) soup)
    (or_else (find_node (named [lit ''main'']) soup)
    (or_else (find_node (named [lit ''article'']) soup)
    (or_else (find_node spec_class_match soup)
             (find_node (named [lit ''body'']) soup))))"

text \<open>The levels of the source's two selections, and whether a tree has a node of a level.\<close>

definition role_main :: "node \<Rightarrow> bool" where
  "role_main n = (named [lit ''div''] n \<and> attr n (lit ''role'') = Some (lit ''main''))"

definition rtd_class :: "node \<Rightarrow> bool" where
  "rtd_class n = (named [lit ''div''] n
     \<and> class_search [lit ''content'', lit ''document'', lit ''body''] n)"

definition web_class :: "node \<Rightarrow> bool" where
  "web_class n = (named [lit ''div''] n
     \<and> class_search [lit ''content'', lit ''main'', lit ''article'', lit ''body''] n)"

definition has :: "(node \<Rightarrow> bool) \<Rightarrow> node \<Rightarrow> bool" where
  "has P soup = list_ex P (descendants soup)"

text \<open>
  Two small pages: one whose only \<open>div\<close> has the class \<open>Content\<close>, with a capital; one
  with a \<open>main\<close> element before a \<open>div\<close> of role \<open>main\<close>.
\<close>

definition caps_div :: node where
  "caps_div = Tag (lit ''div'') [(lit ''class'', lit ''Content'')] [Text (lit ''x'')]"

definition caps_body :: node where
  "caps_body = Tag (lit ''body'') [] [caps_div, Text (lit ''y'')]"

definition caps_page :: node where
  "caps_page = Tag (lit ''[document]'') [] [caps_body]"

definition role_first :: node where
  "role_first = Tag (lit ''main'') [] [Text (lit ''m'')]"

definition role_div :: node where
  "role_div = Tag (lit ''div'') [(lit ''role'', lit ''main'')] [Text (lit ''r'')]"

definition role_page :: node where
  "role_page = Tag (lit ''[document]'') [] [Tag (lit ''body'') [] [role_first, role_div]]"

section \<open>Collapsing newlines\<close>

lemma lead_simps [simp]:
  "lead [] = 0" "lead (c # cs) = (if c = NL then Suc (lead cs) else 0)"
  by (simp_all add: lead_def)

lemma lead_dropWhile [simp]: "lead (dropWhile (\<lambda>x. x = NL) s) = 0"
  by (induction s) auto

lemma re_sub_unfold:
  "re_sub_newlines (c # cs) =
     (if 3 \<le> lead (c # cs)
      then NL # NL # re_sub_newlines (dropWhile (\<lambda>x. x = NL) (c # cs))
      else c # re_sub_newlines cs)"
  by (simp add: lead_def del: lead_simps)

text \<open>The output starts with as many newlines as the input, but with two at most.\<close>

lemma lead_re_sub: "lead (re_sub_newlines s) = min 2 (lead s)"
proof (induction s rule: re_sub_newlines.induct)
  case 1
  show ?case by simp
next
  case (2 c cs)
  let ?r = "re_sub_newlines (dropWhile (\<lambda>x. x = NL) (c # cs))"
  show ?case
  proof (cases "3 \<le> lead (c # cs)")
    case True
    then have p: "3 \<le> length (takeWhile (\<lambda>x. x = NL) (c # cs))"
      unfolding lead_def .
    have e: "re_sub_newlines (c # cs) = NL # NL # ?r"
      using True by (simp only: re_sub_unfold if_True)
    have "lead ?r = 0"
      using 2(1)[OF p] by (simp only: lead_dropWhile)
    then have "lead (NL # NL # ?r) = 2" by simp
    then show ?thesis using True unfolding e by linarith
  next
    case False
    then have p: "\<not> 3 \<le> length (takeWhile (\<lambda>x. x = NL) (c # cs))"
      unfolding lead_def .
    have e: "re_sub_newlines (c # cs) = c # re_sub_newlines cs"
      using False by (simp only: re_sub_unfold if_False)
    show ?thesis
      using 2(2)[OF p] False unfolding e by (auto split: if_splits)
  qed
qed

lemma prefix3_lead: "prefix [NL, NL, NL] t \<Longrightarrow> 3 \<le> lead t"
  by (auto simp: prefix_def)

lemma no_prefix3: "\<not> prefix [NL, NL, NL] (re_sub_newlines s)"
proof
  assume "prefix [NL, NL, NL] (re_sub_newlines s)"
  then have "3 \<le> lead (re_sub_newlines s)" by (rule prefix3_lead)
  then show False by (simp add: lead_re_sub)
qed

lemma takeWhile_run:
  "takeWhile (\<lambda>x. x = NL) (replicate n NL @ ys) = replicate n NL @ takeWhile (\<lambda>x. x = NL) ys"
  by (induction n) auto

lemma dropWhile_run:
  "dropWhile (\<lambda>x. x = NL) (replicate n NL @ ys) = dropWhile (\<lambda>x. x = NL) ys"
  by (induction n) auto

lemma no_three_newlines: "\<not> sublist [NL, NL, NL] (re_sub_newlines s)"
proof (induction s rule: re_sub_newlines.induct)
  case 1
  show ?case by simp
next
  case (2 c cs)
  show ?case
  proof (cases "3 \<le> lead (c # cs)")
    case True
    let ?r = "re_sub_newlines (dropWhile (\<lambda>x. x = NL) (c # cs))"
    from True have ih: "\<not> sublist [NL, NL, NL] ?r"
      using 2(1) by (simp add: lead_def del: lead_simps)
    have l0: "lead ?r = 0" unfolding lead_re_sub lead_dropWhile by simp
    have e: "re_sub_newlines (c # cs) = NL # NL # ?r"
      using True by (simp add: re_sub_unfold del: re_sub_newlines.simps lead_simps)
    have "\<not> prefix [NL, NL, NL] (NL # ?r)"
      using l0 by (cases ?r) auto
    moreover have "\<not> prefix [NL, NL, NL] (NL # NL # ?r)"
      using l0 by (cases ?r) auto
    ultimately show ?thesis
      unfolding e using ih by (simp add: sublist_Cons_right del: re_sub_newlines.simps)
  next
    case False
    then have ih: "\<not> sublist [NL, NL, NL] (re_sub_newlines cs)"
      using 2(2) by (simp add: lead_def del: lead_simps)
    have e: "re_sub_newlines (c # cs) = c # re_sub_newlines cs"
      using False by (simp add: re_sub_unfold del: re_sub_newlines.simps lead_simps)
    show ?thesis
      using no_prefix3 [of "c # cs"] ih unfolding e
      by (simp add: sublist_Cons_right del: re_sub_newlines.simps)
  qed
qed

lemma re_sub_run_front:
  assumes "3 \<le> n" "ys = [] \<or> hd ys \<noteq> NL"
  shows "re_sub_newlines (replicate n NL @ ys) = [NL, NL] @ re_sub_newlines ys"
proof -
  obtain m where n: "n = Suc m" using assms(1) by (cases n) auto
  have tw: "takeWhile (\<lambda>x. x = NL) (replicate n NL @ ys) = replicate n NL"
    using assms(2) by (cases ys) (auto simp: takeWhile_run)
  have dw: "dropWhile (\<lambda>x. x = NL) (replicate n NL @ ys) = ys"
    using assms(2) by (cases ys) (auto simp: dropWhile_run)
  have "replicate n NL @ ys = NL # (replicate m NL @ ys)" by (simp add: n)
  then have "re_sub_newlines (replicate n NL @ ys) =
     (if 3 \<le> length (takeWhile (\<lambda>x. x = NL) (replicate n NL @ ys))
      then [NL, NL] @ re_sub_newlines (dropWhile (\<lambda>x. x = NL) (replicate n NL @ ys))
      else NL # re_sub_newlines (replicate m NL @ ys))"
    by (metis re_sub_newlines.simps(2))
  then show ?thesis using assms(1) by (simp only: tw dw) simp
qed

lemma while_not_all:
  assumes "x \<in> set xs" "\<not> P x"
  shows "takeWhile P (xs @ ys) = takeWhile P xs" "dropWhile P (xs @ ys) = dropWhile P xs @ ys"
  using assms by (induction xs) auto

lemma re_sub_run:
  assumes "3 \<le> n" "xs = [] \<or> last xs \<noteq> NL" "ys = [] \<or> hd ys \<noteq> NL"
  shows "re_sub_newlines (xs @ replicate n NL @ ys)
         = re_sub_newlines xs @ [NL, NL] @ re_sub_newlines ys"
  using assms(2)
proof (induction xs rule: re_sub_newlines.induct)
  case 1
  show ?case using re_sub_run_front [OF assms(1) assms(3)] by simp
next
  case (2 c cs)
  let ?rest = "replicate n NL @ ys"
  from 2(3) have lastne: "last (c # cs) \<noteq> NL" by simp
  have lastin: "last (c # cs) \<in> set (c # cs)" by (rule last_in_set) simp
  have tw: "takeWhile (\<lambda>x. x = NL) ((c # cs) @ ?rest) = takeWhile (\<lambda>x. x = NL) (c # cs)"
    using while_not_all(1) [of "last (c # cs)" "c # cs" "\<lambda>x. x = NL" ?rest] lastin lastne
    by blast
  have dw: "dropWhile (\<lambda>x. x = NL) ((c # cs) @ ?rest)
      = dropWhile (\<lambda>x. x = NL) (c # cs) @ ?rest"
    using while_not_all(2) [of "last (c # cs)" "c # cs" "\<lambda>x. x = NL" ?rest] lastin lastne
    by blast
  have unf: "re_sub_newlines ((c # cs) @ ?rest) =
     (if 3 \<le> length (takeWhile (\<lambda>x. x = NL) (c # cs))
      then [NL, NL] @ re_sub_newlines (dropWhile (\<lambda>x. x = NL) (c # cs) @ ?rest)
      else c # re_sub_newlines (cs @ ?rest))"
    using re_sub_newlines.simps(2)[of c "cs @ ?rest"] tw dw by (simp only: append_Cons)
  show ?case
  proof (cases "3 \<le> length (takeWhile (\<lambda>x. x = NL) (c # cs))")
    case True
    let ?d = "dropWhile (\<lambda>x. x = NL) (c # cs)"
    have "?d \<noteq> []" using lastin lastne by (auto simp: dropWhile_eq_Nil_conv simp del: last.simps)
    then have "last ?d = last (c # cs)"
      by (metis last_appendR takeWhile_dropWhile_id)
    then have "?d = [] \<or> last ?d \<noteq> NL" using lastne by simp
    from 2(1)[OF True this] True show ?thesis
      unfolding unf by (simp del: re_sub_newlines.simps add: re_sub_newlines.simps(2)[of c cs])
  next
    case False
    have "cs = [] \<or> last cs \<noteq> NL" using lastne by (cases cs) auto
    from 2(2)[OF False this] False show ?thesis
      unfolding unf by (simp del: re_sub_newlines.simps add: re_sub_newlines.simps(2)[of c cs])
  qed
qed

lemma rtd_scrape_content:
  assumes "ReadTheDocsIngester_scrape_page e u lg = (Inr d, lg')"
  shows "\<not> sublist [NL, NL, NL] (content d)"
  using assms
  by (auto simp: ReadTheDocsIngester_scrape_page_def Let_def no_three_newlines
           split: option.splits if_splits)

lemma web_scrape_content:
  assumes "WebsiteIngester_scrape_page e u lg = (Inr d, lg')"
  shows "\<not> sublist [NL, NL, NL] (content d)"
  using assms
  by (auto simp: WebsiteIngester_scrape_page_def Let_def no_three_newlines
           split: option.splits if_splits)

lemmas demo_simps = demo_env_def demo_get_def demo_page_def demo_listing_def demo_readme_def
  lit_def get_request_def raise_for_status_def

lemmas scrape_simps = Let_def extract_title_def find_node_def or_else_def get_text_def
  strip_def isspace_def page_metadata_def class_search_def

lemma web_demo_page:
  "WebsiteIngester_scrape_page demo_env (lit ''a/'') [] =
     (Inr (demo_intro (lit ''website'') (lit ''a/'')), [get_request (lit ''a/'') [] (Some 10)])"
  by (simp add: WebsiteIngester_scrape_page_def demo_simps scrape_simps
      website_main_content_def demo_intro_def)

lemma rtd_demo_page:
  "ReadTheDocsIngester_scrape_page demo_env (lit ''a'') [] =
     (Inr (demo_intro (lit ''readthedocs'') (lit ''a'')), [get_request (lit ''a'') [] (Some 10)])"
  by (simp add: ReadTheDocsIngester_scrape_page_def demo_simps scrape_simps
      rtd_main_content_def demo_intro_def)

text \<open>
  C6. The content of every Document a page scraper returns holds no three newlines in a
  row: it is the result of the substitution, which writes two newlines for every run of
  three or more (a run between a text that does not end in a newline and one that does
  not start with one) and so turns five newlines into two.
\<close>

theorem content_newlines:
  "(ReadTheDocsIngester_scrape_page e u lg = (Inr d, lg') \<longrightarrow>
      \<not> sublist [NL, NL, NL] (content d))
   \<and> (WebsiteIngester_scrape_page e' u' lg2 = (Inr d', lg2') \<longrightarrow>
      \<not> sublist [NL, NL, NL] (content d'))
   \<and> (3 \<le> n \<and> (xs = [] \<or> last xs \<noteq> NL) \<and> (ys = [] \<or> hd ys \<noteq> NL) \<longrightarrow>
      re_sub_newlines (xs @ replicate n NL @ ys)
        = re_sub_newlines xs @ [NL, NL] @ re_sub_newlines ys)
   \<and> re_sub_newlines (replicate 5 NL) = [NL, NL]"
proof (intro conjI impI)
  assume "ReadTheDocsIngester_scrape_page e u lg = (Inr d, lg')"
  then show "\<not> sublist [NL, NL, NL] (content d)" by (rule rtd_scrape_content)
next
  assume "WebsiteIngester_scrape_page e' u' lg2 = (Inr d', lg2')"
  then show "\<not> sublist [NL, NL, NL] (content d')" by (rule web_scrape_content)
next
  assume "3 \<le> n \<and> (xs = [] \<or> last xs \<noteq> NL) \<and> (ys = [] \<or> hd ys \<noteq> NL)"
  then show "re_sub_newlines (xs @ replicate n NL @ ys)
        = re_sub_newlines xs @ [NL, NL] @ re_sub_newlines ys"
    using re_sub_run by blast
next
  show "re_sub_newlines (replicate 5 NL) = [NL, NL]"
    by (simp add: numeral_eq_Suc)
qed

theorem content_newlines_witness:
  "ReadTheDocsIngester_scrape_page demo_env (lit ''a'') [] =
     (Inr (demo_intro (lit ''readthedocs'') (lit ''a'')), [get_request (lit ''a'') [] (Some 10)])
   \<and> \<not> sublist [NL, NL, NL] (content (demo_intro (lit ''readthedocs'') (lit ''a'')))
   \<and> WebsiteIngester_scrape_page demo_env (lit ''a/'') [] =
     (Inr (demo_intro (lit ''website'') (lit ''a/'')), [get_request (lit ''a/'') [] (Some 10)])
   \<and> \<not> sublist [NL, NL, NL] (content (demo_intro (lit ''website'') (lit ''a/'')))
   \<and> re_sub_newlines (lit ''Hello'' @ replicate 4 NL @ lit ''World'')
        = lit ''Hello'' @ [NL, NL] @ lit ''World''"
  using content_newlines [where e = demo_env and u = "lit ''a''" and lg = "[]"
      and d = "demo_intro (lit ''readthedocs'') (lit ''a'')"
      and lg' = "[get_request (lit ''a'') [] (Some 10)]"
      and e' = demo_env and u' = "lit ''a/''" and ?lg2.0 = "[]"
      and d' = "demo_intro (lit ''website'') (lit ''a/'')"
      and lg2' = "[get_request (lit ''a/'') [] (Some 10)]"
      and n = 4 and xs = "lit ''Hello''" and ys = "lit ''World''"]
    rtd_demo_page web_demo_page
  by (simp add: lit_def)

section \<open>The crawl loop: what every state of it satisfies\<close>

lemma crawl_step_cases [consumes 0, case_names empty skip fail page]:
  obtains
    (empty) "to_visit s = []" "crawl_step ok sc li s = s"
  | (skip) u rest where "to_visit s = u # rest" "u \<in> visited s \<or> \<not> ok u"
      "crawl_step ok sc li s = s\<lparr>to_visit := rest\<rparr>"
  | (fail) u rest ex lg where "to_visit s = u # rest" "u \<notin> visited s" "ok u"
      "sc u (requests s) = (Inl ex, lg)"
      "crawl_step ok sc li s =
         s\<lparr>to_visit := rest, visited := insert u (visited s), requests := lg\<rparr>"
  | (page) u rest d lg nu lg' where "to_visit s = u # rest" "u \<notin> visited s" "ok u"
      "sc u (requests s) = (Inr d, lg)" "li u lg = (nu, lg')"
      "crawl_step ok sc li s =
         s\<lparr>to_visit := rest @ filter (\<lambda>v. v \<notin> insert u (visited s)) nu,
           visited := insert u (visited s),
           documents := documents s @ [d],
           requests := lg'\<rparr>"
proof (cases "to_visit s")
  case Nil
  then show ?thesis using empty by (simp add: crawl_step_def)
next
  case (Cons u rest)
  show ?thesis
  proof (cases "u \<in> visited s \<or> \<not> ok u")
    case True
    then show ?thesis using skip [of u rest] Cons by (auto simp: crawl_step_def)
  next
    case False
    obtain r lg where sc: "sc u (requests s) = (r, lg)" by (cases "sc u (requests s)")
    show ?thesis
    proof (cases r)
      case (Inl ex)
      then show ?thesis using fail [of u rest ex lg] Cons False sc
        by (auto simp: crawl_step_def)
    next
      case (Inr d)
      obtain nu lg' where li: "li u lg = (nu, lg')" by (cases "li u lg")
      then show ?thesis using page [of u rest d lg nu lg'] Cons False sc Inr
        by (auto simp: crawl_step_def)
    qed
  qed
qed

lemma loop_final:
  "loop_state ok sc li mp s0 s \<Longrightarrow> loop_state ok sc li mp s0 (crawl_loop ok sc li mp s)"
proof (induction ok sc li mp s rule: crawl_loop.induct)
  case (1 ok sc li mp s)
  show ?case
  proof (cases "running mp s")
    case True
    then have "loop_state ok sc li mp s0 (crawl_step ok sc li s)"
      using "1.prems" by (rule loop_turn [rotated])
    then show ?thesis using "1.IH" True by (simp add: crawl_loop.simps [of ok sc li mp s])
  next
    case False
    then show ?thesis using "1.prems" by (simp add: crawl_loop.simps [of ok sc li mp s])
  qed
qed

lemma loop_stops: "\<not> running mp (crawl_loop ok sc li mp s)"
proof (induction ok sc li mp s rule: crawl_loop.induct)
  case (1 ok sc li mp s)
  then show ?case by (cases "running mp s") (simp_all add: crawl_loop.simps [of ok sc li mp s])
qed

lemma loop_budget_stop:
  "mp \<le> int (length (documents s)) \<Longrightarrow> crawl_loop ok sc li mp s = s"
  by (simp add: crawl_loop.simps [of ok sc li mp s] running_def)

lemma step_documents_length:
  "length (documents (crawl_step ok sc li s)) \<le> Suc (length (documents s))"
  by (cases rule: crawl_step_cases [of s ok sc li]) auto

lemma loop_budget:
  assumes "loop_state ok sc li mp s0 s" "documents s0 = []"
  shows "int (length (documents s)) \<le> max 0 mp"
  using assms
proof (induction rule: loop_state.induct)
  case loop_start
  then show ?case by simp
next
  case (loop_turn s)
  then have "int (length (documents s)) < mp" by (simp add: running_def)
  then show ?case using step_documents_length [of ok sc li s] by linarith
qed

lemmas crawl_simps = crawl_loop.simps running_def crawl_step_def hrefs_def find_all_def
  split_last_def

lemma demo_web_run: "web_loop demo_env demo_web (web_start demo_web []) = demo_web_final"
  by (simp add: web_loop_def web_start_def demo_web_def WebsiteIngester_init_def crawl_simps
      WebsiteIngester_scrape_page_def WebsiteIngester_find_links_def
      demo_simps scrape_simps website_main_content_def demo_leaf_def demo_intro_def
      demo_web_final_def insert_commute)

lemma demo_web1_run: "web_loop demo_env demo_web1 (web_start demo_web1 []) = demo_web1_final"
  by (simp add: web_loop_def web_start_def demo_web1_def WebsiteIngester_init_def crawl_simps
      WebsiteIngester_scrape_page_def WebsiteIngester_find_links_def
      demo_simps scrape_simps website_main_content_def demo_leaf_def demo_intro_def
      demo_web1_final_def insert_commute)

lemma demo_rtd1_run: "rtd_loop demo_env demo_rtd1 (rtd_start demo_rtd1 []) = demo_rtd1_final"
  by (simp add: rtd_loop_def rtd_start_def demo_rtd1_def ReadTheDocsIngester_init_def crawl_simps
      ReadTheDocsIngester_scrape_page_def ReadTheDocsIngester_find_doc_links_def
      demo_simps scrape_simps rtd_main_content_def demo_leaf_def demo_intro_def
      demo_rtd1_final_def insert_commute)

lemma rtd_final_state: "rtd_crawl_state e r lg (rtd_loop e r (rtd_start r lg))"
  unfolding rtd_crawl_state_def rtd_loop_def by (rule loop_final) (rule loop_start)

lemma web_final_state: "web_crawl_state e w lg (web_loop e w (web_start w lg))"
  unfolding web_crawl_state_def web_loop_def by (rule loop_final) (rule loop_start)

text \<open>
  C1, as amended. In every state of the loop of either crawler, and in what
  \<open>get_all_docs\<close> returns, the number of documents is at most \<open>max_pages\<close>, or zero
  when \<open>max_pages\<close> is negative. In a state where the number of documents has reached
  \<open>max_pages\<close> the loop ends at once, whatever is left in the queue, and the state is its
  result: the crawl stops, and the queue is dropped with the state.
\<close>

theorem page_budget:
  "(rtd_crawl_state e r lg s \<longrightarrow>
      int (length (documents s)) \<le> max 0 (rtd_max_pages r)
      \<and> (rtd_max_pages r \<le> int (length (documents s)) \<longrightarrow> rtd_loop e r s = s))
   \<and> int (length (fst (ReadTheDocsIngester_get_all_docs e r lg))) \<le> max 0 (rtd_max_pages r)
   \<and> (web_crawl_state e w lg2 s2 \<longrightarrow>
      int (length (documents s2)) \<le> max 0 (web_max_pages w)
      \<and> (web_max_pages w \<le> int (length (documents s2)) \<longrightarrow> web_loop e w s2 = s2))
   \<and> int (length (fst (WebsiteIngester_get_all_docs e w lg2))) \<le> max 0 (web_max_pages w)"
proof -
  have r: "int (length (documents t)) \<le> max 0 (rtd_max_pages r)" if "rtd_crawl_state e r lg t" for t
    using that unfolding rtd_crawl_state_def by (rule loop_budget) (simp add: rtd_start_def)
  have w: "int (length (documents t)) \<le> max 0 (web_max_pages w)" if "web_crawl_state e w lg2 t" for t
    using that unfolding web_crawl_state_def by (rule loop_budget) (simp add: web_start_def)
  have rs: "rtd_loop e r s = s" if "rtd_max_pages r \<le> int (length (documents s))"
    using that unfolding rtd_loop_def by (rule loop_budget_stop)
  have ws: "web_loop e w s2 = s2" if "web_max_pages w \<le> int (length (documents s2))"
    using that unfolding web_loop_def by (rule loop_budget_stop)
  show ?thesis
    using r [OF rtd_final_state] w [OF web_final_state] r [of s] w [of s2] rs ws
    by (simp add: ReadTheDocsIngester_get_all_docs_def WebsiteIngester_get_all_docs_def Let_def)
qed

text \<open>
  C1 as stated fails for a negative budget: with \<open>max_pages = -1\<close> the loop is not
  entered, no document is returned, and zero is more than \<open>-1\<close>.
\<close>

theorem page_budget_negative:
  "\<not> int (length (fst (ReadTheDocsIngester_get_all_docs demo_env
         (ReadTheDocsIngester_init (lit ''a/'') (- 1)) [])))
       \<le> rtd_max_pages (ReadTheDocsIngester_init (lit ''a/'') (- 1))"
  by (simp add: ReadTheDocsIngester_get_all_docs_def ReadTheDocsIngester_init_def rtd_loop_def
      rtd_start_def crawl_loop.simps running_def)

theorem page_budget_witness:
  "rtd_crawl_state demo_env demo_rtd1 [] demo_rtd1_final
   \<and> rtd_max_pages demo_rtd1 = 1
   \<and> length (documents demo_rtd1_final) = 1
   \<and> to_visit demo_rtd1_final = [lit ''a/x'', lit ''a/y'']
   \<and> rtd_loop demo_env demo_rtd1 demo_rtd1_final = demo_rtd1_final
   \<and> length (fst (ReadTheDocsIngester_get_all_docs demo_env demo_rtd1 [])) = 1
   \<and> web_crawl_state demo_env demo_web1 [] demo_web1_final
   \<and> web_max_pages demo_web1 = 1
   \<and> length (documents demo_web1_final) = 1
   \<and> web_loop demo_env demo_web1 demo_web1_final = demo_web1_final
   \<and> length (fst (WebsiteIngester_get_all_docs demo_env demo_web1 [])) = 1"
proof -
  have a: "rtd_crawl_state demo_env demo_rtd1 [] demo_rtd1_final"
    using rtd_final_state [of demo_env demo_rtd1 "[]"] by (simp only: demo_rtd1_run)
  have b: "web_crawl_state demo_env demo_web1 [] demo_web1_final"
    using web_final_state [of demo_env demo_web1 "[]"] by (simp only: demo_web1_run)
  have c: "rtd_max_pages demo_rtd1 = 1" "web_max_pages demo_web1 = 1"
    "length (documents demo_rtd1_final) = 1" "length (documents demo_web1_final) = 1"
    "to_visit demo_rtd1_final = [lit ''a/x'', lit ''a/y'']"
    by (simp_all add: demo_rtd1_def demo_web1_def ReadTheDocsIngester_init_def
        WebsiteIngester_init_def demo_rtd1_final_def demo_web1_final_def)
  show ?thesis
    using page_budget [of demo_env demo_rtd1 "[]" demo_rtd1_final demo_web1 "[]" demo_web1_final]
      a b c
    by (simp add: ReadTheDocsIngester_get_all_docs_def WebsiteIngester_get_all_docs_def
        demo_rtd1_run demo_web1_run)
qed

subsection \<open>What the scrapers and the link finders do to the state\<close>

lemma rtd_scrape_log:
  "ReadTheDocsIngester_scrape_page e u lg = (r, lg') \<Longrightarrow> lg' = lg @ [get_request u [] (Some 10)]"
  by (auto simp: ReadTheDocsIngester_scrape_page_def Let_def split: option.splits if_splits)

lemma web_scrape_log:
  "WebsiteIngester_scrape_page e u lg = (r, lg') \<Longrightarrow> lg' = lg @ [get_request u [] (Some 10)]"
  by (auto simp: WebsiteIngester_scrape_page_def Let_def split: option.splits if_splits)

lemma rtd_scrape_doc:
  "ReadTheDocsIngester_scrape_page e u lg = (Inr d, lg') \<Longrightarrow>
     url d = u \<and> source d = lit ''readthedocs'' \<and> metadata d = page_metadata e lg' (content d)"
  by (auto simp: ReadTheDocsIngester_scrape_page_def Let_def split: option.splits if_splits)

lemma web_scrape_doc:
  "WebsiteIngester_scrape_page e u lg = (Inr d, lg') \<Longrightarrow>
     url d = u \<and> source d = lit ''website'' \<and> metadata d = page_metadata e lg' (content d)"
  by (auto simp: WebsiteIngester_scrape_page_def Let_def split: option.splits if_splits)

lemma rtd_links_log:
  "ReadTheDocsIngester_find_doc_links e ing u lg = (nu, lg') \<Longrightarrow>
     lg' = lg @ [get_request u [] (Some 10)]"
  by (auto simp: ReadTheDocsIngester_find_doc_links_def Let_def split: option.splits)

lemma web_links_log:
  "WebsiteIngester_find_links e ing u lg = (nu, lg') \<Longrightarrow>
     lg' = lg @ [get_request u [] (Some 10)]"
  by (auto simp: WebsiteIngester_find_links_def Let_def split: option.splits)

lemma req_url_get_request [simp]: "req_url (get_request u h t) = u"
  by (simp add: get_request_def)

text \<open>What holds of every document a scraper returns holds of every document of the loop.\<close>

lemma loop_documents:
  assumes sc: "\<And>u lg d lg'. ok u \<Longrightarrow> sc u lg = (Inr d, lg') \<Longrightarrow> P d"
    and st: "loop_state ok sc li mp s0 s" and init: "documents s0 = []"
  shows "\<forall>d \<in> set (documents s). P d"
  using st init
proof (induction rule: loop_state.induct)
  case loop_start
  then show ?case by simp
next
  case (loop_turn s)
  then have ih: "\<forall>d \<in> set (documents s). P d" by simp
  show ?case
  proof (cases rule: crawl_step_cases [of s ok sc li])
    case (page u rest d lg nu lg')
    then show ?thesis using ih sc by auto
  qed (use ih in auto)
qed

lemma loop_visited_mono:
  assumes "loop_state ok sc li mp s0 s"
  shows "visited s0 \<subseteq> visited s"
  using assms
proof (induction rule: loop_state.induct)
  case loop_start
  show ?case by simp
next
  case (loop_turn s)
  show ?case
    using loop_turn.IH by (cases rule: crawl_step_cases [of s ok sc li]) auto
qed

text \<open>
  With a scraper and a link finder that each send one request, for the url they are given:
  the urls of the documents are distinct, documents and requests are for visited urls only,
  and no url is requested more than twice.
\<close>

lemma loop_once:
  assumes sc: "\<And>u lg r lg'. sc u lg = (r, lg') \<Longrightarrow> lg' = lg @ [get_request u [] (Some 10)]"
    and scd: "\<And>u lg d lg'. sc u lg = (Inr d, lg') \<Longrightarrow> url d = u"
    and li: "\<And>u lg nu lg'. li u lg = (nu, lg') \<Longrightarrow> lg' = lg @ [get_request u [] (Some 10)]"
    and st: "loop_state ok sc li mp s0 s"
    and init: "documents s0 = []" "requests s0 = []"
  shows "distinct (map url (documents s))
    \<and> url ` set (documents s) \<subseteq> visited s
    \<and> req_url ` set (requests s) \<subseteq> visited s
    \<and> (\<forall>u. count_list (map req_url (requests s)) u \<le> 2)"
  using st init
proof (induction rule: loop_state.induct)
  case loop_start
  then show ?case by simp
next
  case (loop_turn s)
  then have ih: "distinct (map url (documents s))" "url ` set (documents s) \<subseteq> visited s"
    "req_url ` set (requests s) \<subseteq> visited s"
    "\<And>u. count_list (map req_url (requests s)) u \<le> 2"
    by simp_all
  show ?case
  proof (cases rule: crawl_step_cases [of s ok sc li])
    case empty
    then show ?thesis using ih by simp
  next
    case (skip u rest)
    then show ?thesis using ih by simp
  next
    case (fail u rest ex lg)
    have lg: "lg = requests s @ [get_request u [] (Some 10)]" using sc fail(4) by blast
    have "count_list (map req_url (requests s)) u = 0"
      using fail(2) ih(3) by (auto simp: count_list_0_iff)
    then have "\<And>v. count_list (map req_url lg) v \<le> 2"
      using ih(4) by (auto simp: lg)
    then show ?thesis using ih fail lg by auto
  next
    case (page u rest d lg nu lg')
    have lg: "lg = requests s @ [get_request u [] (Some 10)]" using sc page(4) by blast
    have lg': "lg' = lg @ [get_request u [] (Some 10)]" using li page(5) by blast
    have ud: "url d = u" using scd page(4) by blast
    have "count_list (map req_url (requests s)) u = 0"
      using page(2) ih(3) by (auto simp: count_list_0_iff)
    then have c: "\<And>v. count_list (map req_url lg') v \<le> 2"
      using ih(4) by (auto simp: lg lg')
    have "u \<notin> url ` set (documents s)" using page(2) ih(2) by blast
    then show ?thesis using ih page lg lg' ud c by auto
  qed
qed

text \<open>Documents and requests are for urls that passed the check.\<close>

lemma loop_allowed:
  assumes sc: "\<And>u lg r lg'. sc u lg = (r, lg') \<Longrightarrow> lg' = lg @ [get_request u [] (Some 10)]"
    and scd: "\<And>u lg d lg'. sc u lg = (Inr d, lg') \<Longrightarrow> url d = u"
    and li: "\<And>u lg nu lg'. li u lg = (nu, lg') \<Longrightarrow> lg' = lg @ [get_request u [] (Some 10)]"
    and st: "loop_state ok sc li mp s0 s"
    and init: "documents s0 = []" "requests s0 = []"
  shows "(\<forall>d \<in> set (documents s). ok (url d)) \<and> (\<forall>rq \<in> set (requests s). ok (req_url rq))"
  using st init
proof (induction rule: loop_state.induct)
  case loop_start
  then show ?case by simp
next
  case (loop_turn s)
  then have ih: "\<forall>d \<in> set (documents s). ok (url d)" "\<forall>rq \<in> set (requests s). ok (req_url rq)"
    by simp_all
  show ?case
  proof (cases rule: crawl_step_cases [of s ok sc li])
    case empty
    then show ?thesis using ih by simp
  next
    case (skip u rest)
    then show ?thesis using ih by simp
  next
    case (fail u rest ex lg)
    have lg: "lg = requests s @ [get_request u [] (Some 10)]" using sc fail(4) by blast
    show ?thesis using ih fail lg by auto
  next
    case (page u rest d lg nu lg')
    have lg: "lg = requests s @ [get_request u [] (Some 10)]" using sc page(4) by blast
    have lg': "lg' = lg @ [get_request u [] (Some 10)]" using li page(5) by blast
    have ud: "url d = u" using scd page(4) by blast
    show ?thesis using ih page lg lg' ud by auto
  qed
qed

lemma rtd_visits_once: "rtd_crawl_state e r [] s \<Longrightarrow> visits_once s"
  unfolding rtd_crawl_state_def visits_once_def
  by (rule loop_once [where sc = "ReadTheDocsIngester_scrape_page e"
        and li = "ReadTheDocsIngester_find_doc_links e r"])
     (auto simp: rtd_start_def dest: rtd_scrape_log rtd_scrape_doc rtd_links_log)

lemma web_visits_once: "web_crawl_state e w [] s \<Longrightarrow> visits_once s"
  unfolding web_crawl_state_def visits_once_def
  by (rule loop_once [where sc = "WebsiteIngester_scrape_page e"
        and li = "WebsiteIngester_find_links e w"])
     (auto simp: web_start_def dest: web_scrape_log web_scrape_doc web_links_log)

lemma step_skip_visited:
  "to_visit s = u # rest \<Longrightarrow> u \<in> visited s \<Longrightarrow> crawl_step ok sc li s = s\<lparr>to_visit := rest\<rparr>"
  by (simp add: crawl_step_def)

lemma step_visited_mono: "visited s \<subseteq> visited (crawl_step ok sc li s)"
  by (cases rule: crawl_step_cases [of s ok sc li]) auto

text \<open>
  C2, as amended. In every state of the loop of either crawler the documents have
  distinct urls, documents and requests are for visited urls only, and no url was
  requested more than twice; so the documents \<open>get_all_docs\<close> returns have distinct urls.
  A popped url that is visited is skipped (the turn only drops it from the queue), and
  the visited set never loses a url, so a url is scraped once at most.
\<close>

theorem crawl_visits_once:
  "(rtd_crawl_state e r [] s \<longrightarrow> visits_once s)
   \<and> (web_crawl_state e w [] s2 \<longrightarrow> visits_once s2)
   \<and> distinct (map url (fst (ReadTheDocsIngester_get_all_docs e r [])))
   \<and> distinct (map url (fst (WebsiteIngester_get_all_docs e w [])))
   \<and> (to_visit s3 = u # rest \<and> u \<in> visited s3 \<longrightarrow>
        crawl_step ok sc li s3 = s3\<lparr>to_visit := rest\<rparr>)
   \<and> visited s3 \<subseteq> visited (crawl_step ok sc li s3)"
proof -
  have "visits_once (rtd_loop e r (rtd_start r []))"
    by (rule rtd_visits_once) (rule rtd_final_state)
  then have a: "distinct (map url (fst (ReadTheDocsIngester_get_all_docs e r [])))"
    by (simp add: visits_once_def ReadTheDocsIngester_get_all_docs_def Let_def)
  have "visits_once (web_loop e w (web_start w []))"
    by (rule web_visits_once) (rule web_final_state)
  then have b: "distinct (map url (fst (WebsiteIngester_get_all_docs e w [])))"
    by (simp add: visits_once_def WebsiteIngester_get_all_docs_def Let_def)
  show ?thesis
    using a b rtd_visits_once [of e r s] web_visits_once [of e w s2]
      step_skip_visited [of s3 u rest ok sc li] step_visited_mono [of s3 ok sc li]
    by blast
qed

text \<open>
  C2 as stated fails where it says that each url is fetched once at most: a page that is
  scraped is requested a second time for its links. In the crawl of the small site the
  start url is requested twice.
\<close>

theorem url_requested_twice:
  "count_list (map req_url (snd (snd (WebsiteIngester_get_all_docs demo_env demo_web []))))
     (lit ''a/'') = 2"
  by (simp add: WebsiteIngester_get_all_docs_def demo_web_run demo_web_final_def lit_def)

lemma demo_rtd1_state: "rtd_crawl_state demo_env demo_rtd1 [] demo_rtd1_final"
  using rtd_final_state [of demo_env demo_rtd1 "[]"] by (simp only: demo_rtd1_run)

lemma demo_web_state: "web_crawl_state demo_env demo_web [] demo_web_final"
  using web_final_state [of demo_env demo_web "[]"] by (simp only: demo_web_run)

theorem crawl_visits_once_witness:
  "rtd_crawl_state demo_env demo_rtd1 [] demo_rtd1_final \<and> visits_once demo_rtd1_final
   \<and> web_crawl_state demo_env demo_web [] demo_web_final \<and> visits_once demo_web_final
   \<and> map url (fst (WebsiteIngester_get_all_docs demo_env demo_web []))
        = [lit ''a/'', lit ''a/x'', lit ''a/y'']
   \<and> to_visit demo_rtd1_final = lit ''a/x'' # [lit ''a/y'']
   \<and> crawl_step (\<lambda>u. True) (ReadTheDocsIngester_scrape_page demo_env)
        (ReadTheDocsIngester_find_doc_links demo_env demo_rtd1)
        (demo_rtd1_final\<lparr>visited := {lit ''a'', lit ''a/x''}\<rparr>)
      = demo_rtd1_final\<lparr>visited := {lit ''a'', lit ''a/x''}, to_visit := [lit ''a/y'']\<rparr>"
  using crawl_visits_once [of demo_env demo_rtd1 demo_rtd1_final demo_web demo_web_final
      "demo_rtd1_final\<lparr>visited := {lit ''a'', lit ''a/x''}\<rparr>" "lit ''a/x''" "[lit ''a/y'']"
      "\<lambda>u. True" "ReadTheDocsIngester_scrape_page demo_env"
      "ReadTheDocsIngester_find_doc_links demo_env demo_rtd1"]
    demo_rtd1_state demo_web_state
  by (simp add: demo_rtd1_final_def WebsiteIngester_get_all_docs_def demo_web_run
      demo_web_final_def demo_intro_def demo_leaf_def)

text \<open>
  C3. In every state of the website crawl, and in what \<open>get_all_docs\<close> returns, the
  domain of every document's url and of every requested url is in the allow-list of the
  ingester, which is the list it was configured with when that is not empty.
\<close>

theorem website_allow_list:
  "(web_crawl_state e w [] s \<longrightarrow>
      (\<forall>d \<in> set (documents s). netloc e (url d) \<in> set (web_allowed_domains w))
      \<and> (\<forall>rq \<in> set (requests s). netloc e (req_url rq) \<in> set (web_allowed_domains w)))
   \<and> (\<forall>d \<in> set (fst (WebsiteIngester_get_all_docs e w [])).
        netloc e (url d) \<in> set (web_allowed_domains w))
   \<and> (\<forall>rq \<in> set (snd (snd (WebsiteIngester_get_all_docs e w []))).
        netloc e (req_url rq) \<in> set (web_allowed_domains w))
   \<and> (ds \<noteq> [] \<longrightarrow> web_allowed_domains (WebsiteIngester_init e st (Some ds) mp) = ds)"
proof -
  have inv: "(\<forall>d \<in> set (documents t). netloc e (url d) \<in> set (web_allowed_domains w))
      \<and> (\<forall>rq \<in> set (requests t). netloc e (req_url rq) \<in> set (web_allowed_domains w))"
    if "web_crawl_state e w [] t" for t
    using that unfolding web_crawl_state_def
    by (rule loop_allowed [where sc = "WebsiteIngester_scrape_page e"
          and li = "WebsiteIngester_find_links e w"
          and ok = "\<lambda>u. netloc e u \<in> set (web_allowed_domains w)", rotated 3])
       (auto simp: web_start_def dest: web_scrape_log web_scrape_doc web_links_log)
  have i: "ds \<noteq> [] \<longrightarrow> web_allowed_domains (WebsiteIngester_init e st (Some ds) mp) = ds"
    by (cases ds) (simp_all add: WebsiteIngester_init_def)
  show ?thesis
    using inv [of s] inv [OF web_final_state] i
    by (simp add: WebsiteIngester_get_all_docs_def Let_def)
qed

theorem website_allow_list_witness:
  "web_crawl_state demo_env demo_web [] demo_web_final
   \<and> web_allowed_domains demo_web = [lit ''a'']
   \<and> map (netloc demo_env \<circ> url) (documents demo_web_final) = [lit ''a'', lit ''a'', lit ''a'']
   \<and> lit ''b/z'' \<notin> req_url ` set (requests demo_web_final)
   \<and> web_allowed_domains (WebsiteIngester_init demo_env (lit ''a/'') (Some [lit ''a'']) 1)
       = [lit ''a'']"
  using website_allow_list [of demo_env demo_web demo_web_final "[lit ''a'']" "lit ''a/''" 1]
    demo_web_state
  by (simp add: demo_web_def WebsiteIngester_init_def demo_env_def demo_web_final_def
      demo_intro_def demo_leaf_def lit_def get_request_def)

lemma page_metadata_ok:
  "metadata d = page_metadata e lg (content d) \<Longrightarrow> has_page_metadata d"
  by (simp add: has_page_metadata_def page_metadata_def lit_def)

text \<open>
  C10. Every document of a doc-site or website crawl has in its metadata the entry
  \<open>content_length\<close> with the length of its content, and the entry \<open>scraped_at\<close>.
\<close>

theorem content_length_recorded:
  "(rtd_crawl_state e r lg s \<longrightarrow> (\<forall>d \<in> set (documents s). has_page_metadata d))
   \<and> (web_crawl_state e w lg2 s2 \<longrightarrow> (\<forall>d \<in> set (documents s2). has_page_metadata d))
   \<and> (\<forall>d \<in> set (fst (ReadTheDocsIngester_get_all_docs e r lg)). has_page_metadata d)
   \<and> (\<forall>d \<in> set (fst (WebsiteIngester_get_all_docs e w lg2)). has_page_metadata d)"
proof -
  have a: "\<forall>d \<in> set (documents t). has_page_metadata d" if "rtd_crawl_state e r lg t" for t
    using that unfolding rtd_crawl_state_def
    by (rule loop_documents [rotated])
       (auto simp: rtd_start_def dest!: rtd_scrape_doc intro: page_metadata_ok)
  have b: "\<forall>d \<in> set (documents t). has_page_metadata d" if "web_crawl_state e w lg2 t" for t
    using that unfolding web_crawl_state_def
    by (rule loop_documents [rotated])
       (auto simp: web_start_def dest!: web_scrape_doc intro: page_metadata_ok)
  show ?thesis
    using a [of s] b [of s2] a [OF rtd_final_state] b [OF web_final_state]
    by (simp add: ReadTheDocsIngester_get_all_docs_def WebsiteIngester_get_all_docs_def Let_def)
qed

theorem content_length_recorded_witness:
  "rtd_crawl_state demo_env demo_rtd1 [] demo_rtd1_final
   \<and> web_crawl_state demo_env demo_web [] demo_web_final
   \<and> map (\<lambda>d. (length (content d), map_of (metadata d) (lit ''content_length'')))
       (documents demo_web_final) = [(12, Some (JInt 12)), (3, Some (JInt 3)), (0, Some (JInt 0))]
   \<and> has_page_metadata (demo_intro (lit ''readthedocs'') (lit ''a''))
   \<and> has_page_metadata (demo_leaf (lit ''website'') (lit ''a/y'') (lit ''y'') [])"
  using content_length_recorded [of demo_env demo_rtd1 "[]" demo_rtd1_final demo_web "[]"
      demo_web_final] demo_rtd1_state demo_web_state
  by (simp add: demo_rtd1_final_def demo_web_final_def demo_intro_def demo_leaf_def lit_def)

section \<open>The repository fetcher: requests and failures\<close>

lemmas repo_simps = GitHubIngester_init_def readme_request_def docs_request_def
  repo_full_name_def docs_file_def is_docs_name_def endswith_def demo_repo_def
  demo_repo_empty_def demo_sub_def demo_file_def

lemma demo_answers:
  "http_get demo_env lg (readme_request demo_repo) = Some \<lparr>status_code = 200, body = lit ''readme''\<rparr>"
  "http_get demo_env lg (docs_request demo_repo (lit ''docs''))
     = Some \<lparr>status_code = 200, body = lit ''docs''\<rparr>"
  "http_get demo_env lg (docs_request demo_repo (lit ''docs/sub''))
     = Some \<lparr>status_code = 500, body = []\<rparr>"
  "http_get demo_env lg (docs_request demo_repo_empty (lit ''docs''))
     = Some \<lparr>status_code = 404, body = []\<rparr>"
  "http_get demo_env lg (get_request (lit ''raw'') [] None)
     = Some \<lparr>status_code = 200, body = lit ''raw''\<rparr>"
  "json_listing demo_env (lit ''docs'') = Some [demo_sub, demo_file]"
  "json_readme demo_env (lit ''readme'')
     = Some \<lparr>r_download_url = lit ''raw'', r_html_url = lit ''h/readme''\<rparr>"
  "strftime demo_env lg = lit ''now''"
  by (simp_all add: demo_simps repo_simps)

lemma demo_entries:
  "e_type demo_sub = lit ''dir''" "e_path demo_sub = lit ''docs/sub''"
  "e_type demo_file = lit ''file''" "e_name demo_file = lit ''a.md''"
  "e_download_url demo_file = lit ''raw''"
  "lit ''dir'' \<noteq> lit ''file''" "is_docs_name (lit ''a.md'')"
  by (simp_all add: demo_sub_def demo_file_def lit_def is_docs_name_def endswith_def)

lemma demo_readme_run:
  "GitHubIngester_get_readme demo_env demo_repo [] =
     (Some \<lparr>source = lit ''github'', url = lit ''h/readme'', title = lit ''n - README'',
            content = lit ''raw'',
            metadata = [(lit ''type'', JStr (lit ''readme'')), (lit ''repo'', JStr (lit ''o/n'')),
                        (lit ''scraped_at'', JStr (lit ''now''))]\<rparr>,
      [readme_request demo_repo, get_request (lit ''raw'') [] None])"
proof -
  have "repo_name demo_repo @ lit '' - README'' = lit ''n - README''"
    "repo_full_name demo_repo = lit ''o/n''"
    by (simp_all add: demo_repo_def GitHubIngester_init_def repo_full_name_def lit_def)
  then show ?thesis
    by (simp add: GitHubIngester_get_readme_def Let_def demo_answers raise_for_status_def)
qed

lemma demo_docs_run:
  "GitHubIngester_get_docs_directory demo_env demo_repo 2 (lit ''docs'') [] =
     Some ([docs_file demo_env demo_repo demo_file (lit ''raw'')
              [docs_request demo_repo (lit ''docs''), docs_request demo_repo (lit ''docs/sub''),
               get_request (lit ''raw'') [] None]],
           [docs_request demo_repo (lit ''docs''), docs_request demo_repo (lit ''docs/sub''),
            get_request (lit ''raw'') [] None])"
  by (simp add: numeral_2_eq_2 Let_def demo_answers demo_entries raise_for_status_def)

lemma demo_docs_empty_run:
  "GitHubIngester_get_docs_directory demo_env demo_repo_empty (Suc 0) (lit ''docs'') lg =
     Some ([], lg @ [docs_request demo_repo_empty (lit ''docs'')])"
  by (simp add: Let_def demo_answers)

text \<open>
  C4 fails on the two download calls. In the repository \<open>o/n\<close> the readme metadata call
  and the two listing calls pass \<open>timeout=10\<close>; the call that downloads the readme and the
  call that downloads the file \<open>a.md\<close> pass no timeout.
\<close>

theorem download_without_timeout:
  "map req_timeout (snd (GitHubIngester_get_readme demo_env demo_repo [])) = [Some 10, None]
   \<and> map_option (map req_timeout \<circ> snd)
        (GitHubIngester_get_docs_directory demo_env demo_repo 2 (lit ''docs'') [])
      = Some [Some 10, Some 10, None]"
  by (simp add: demo_readme_run demo_docs_run readme_request_def docs_request_def
      get_request_def)

lemma readme_fails:
  assumes "http_get e lg (readme_request ing) = None
     \<or> (\<exists>r. http_get e lg (readme_request ing) = Some r \<and> raise_for_status r)"
  shows "GitHubIngester_get_readme e ing lg = (None, lg @ [readme_request ing])"
  using assms by (auto simp: GitHubIngester_get_readme_def Let_def)

lemma no_readme_all_docs:
  assumes "GitHubIngester_get_readme e ing lg = (None, lg1)"
  shows "GitHubIngester_get_all_docs e ing fuel lg =
     GitHubIngester_get_docs_directory e ing fuel (lit ''docs'') lg1"
  using assms
  by (auto simp: GitHubIngester_get_all_docs_def GitHubIngester_get_wiki_pages_def
      split: option.splits)

lemma docs_log_prefix:
  "(\<forall>ds lg'. GitHubIngester_get_docs_directory e ing f path lg = Some (ds, lg') \<longrightarrow>
      prefix (lg @ [docs_request ing path]) lg')"
  "(\<forall>ds lg'. docs_items e ing f its docs lg = Some (ds, lg') \<longrightarrow> prefix lg lg')"
proof (induction e ing f path lg and e ing f its docs lg
    rule: GitHubIngester_get_docs_directory_docs_items.induct)
  case (1 e ing path lg)
  show ?case by simp
next
  case (2 e ing f path lg)
  show ?case
    using 2 [OF refl refl]
    by (auto simp: Let_def split: option.splits if_splits dest: append_prefixD)
next
  case (3 e ing f docs lg)
  show ?case by simp
next
  case (4 e ing f it its docs lg)
  let ?file = "e_type it = lit ''file'' \<and> is_docs_name (e_name it)"
  let ?rq = "get_request (e_download_url it) [] None"
  show ?case
  proof (intro allI impI)
    fix ds lg'
    assume run: "docs_items e ing f (it # its) docs lg = Some (ds, lg')"
    show "prefix lg lg'"
    proof (cases ?file)
      case True
      show ?thesis
      proof (cases "http_get e lg ?rq")
        case None
        then show ?thesis using run True by (auto simp: Let_def)
      next
        case (Some r)
        have "docs_items e ing f its (docs @ [docs_file e ing it (body r) (lg @ [?rq])])
            (lg @ [?rq]) = Some (ds, lg')"
          using run True Some by (simp add: Let_def)
        then have "prefix (lg @ [?rq]) lg'"
          using "4.IH"(1) [OF True refl refl Some] by blast
        then show ?thesis by (rule append_prefixD)
      qed
    next
      case False
      show ?thesis
      proof (cases "e_type it = lit ''dir''")
        case True
        obtain sub lg1 where sub: "GitHubIngester_get_docs_directory e ing f (e_path it) lg
            = Some (sub, lg1)"
          and rest: "docs_items e ing f its (docs @ sub) lg1 = Some (ds, lg')"
          using run False True by (auto split: option.splits)
        have "prefix (lg @ [docs_request ing (e_path it)]) lg1"
          using "4.IH"(2) [OF False True] sub by blast
        then have "prefix lg lg1" by (rule append_prefixD)
        moreover have "prefix lg1 lg'"
          using "4.IH"(3) [OF False True sub refl] rest by blast
        ultimately show ?thesis by (rule prefix_order.trans)
      next
        case notdir: False
        then have "docs_items e ing f its docs lg = Some (ds, lg')"
          using run False by auto
        then show ?thesis using "4.IH"(4) [OF False notdir] by blast
      qed
    qed
  qed
qed

text \<open>
  C8. When the readme API call fails (the request fails, or its status is one
  \<open>raise_for_status\<close> refuses), \<open>_get_readme\<close> returns \<open>None\<close> after that one request,
  and \<open>get_all_docs\<close> is then exactly the run of the documentation-directory step that
  follows it: the same documents, the wiki step adding none, and the listing request for
  \<open>docs\<close> made right after the readme request. The same holds whenever \<open>_get_readme\<close>
  returns \<open>None\<close>.
\<close>

theorem readme_failure:
  "(http_get e lg (readme_request ing) = None
      \<or> (\<exists>r. http_get e lg (readme_request ing) = Some r \<and> raise_for_status r) \<longrightarrow>
      GitHubIngester_get_readme e ing lg = (None, lg @ [readme_request ing])
      \<and> GitHubIngester_get_all_docs e ing fuel lg
          = GitHubIngester_get_docs_directory e ing fuel (lit ''docs'') (lg @ [readme_request ing])
      \<and> (\<forall>ds lg'. GitHubIngester_get_all_docs e ing fuel lg = Some (ds, lg') \<longrightarrow>
            prefix (lg @ [readme_request ing, docs_request ing (lit ''docs'')]) lg'))
   \<and> (GitHubIngester_get_readme e' ing' lg2 = (None, lg3) \<longrightarrow>
        GitHubIngester_get_all_docs e' ing' fuel' lg2
          = GitHubIngester_get_docs_directory e' ing' fuel' (lit ''docs'') lg3)
   \<and> GitHubIngester_get_wiki_pages ing = []"
proof (intro conjI impI)
  assume f: "http_get e lg (readme_request ing) = None
      \<or> (\<exists>r. http_get e lg (readme_request ing) = Some r \<and> raise_for_status r)"
  show r: "GitHubIngester_get_readme e ing lg = (None, lg @ [readme_request ing])"
    using f by (rule readme_fails)
  show a: "GitHubIngester_get_all_docs e ing fuel lg
      = GitHubIngester_get_docs_directory e ing fuel (lit ''docs'') (lg @ [readme_request ing])"
    using r by (rule no_readme_all_docs)
  show "\<forall>ds lg'. GitHubIngester_get_all_docs e ing fuel lg = Some (ds, lg') \<longrightarrow>
      prefix (lg @ [readme_request ing, docs_request ing (lit ''docs'')]) lg'"
    using docs_log_prefix(1) [of e ing fuel "lit ''docs''" "lg @ [readme_request ing]"]
    unfolding a by simp
next
  assume "GitHubIngester_get_readme e' ing' lg2 = (None, lg3)"
  then show "GitHubIngester_get_all_docs e' ing' fuel' lg2
      = GitHubIngester_get_docs_directory e' ing' fuel' (lit ''docs'') lg3"
    by (rule no_readme_all_docs)
next
  show "GitHubIngester_get_wiki_pages ing = []"
    by (simp add: GitHubIngester_get_wiki_pages_def)
qed

text \<open>The repository \<open>o/m\<close> has no readme (the request fails) and no \<open>docs\<close> (404).\<close>

theorem readme_failure_witness:
  "http_get demo_env [] (readme_request demo_repo_empty) = None
   \<and> GitHubIngester_get_readme demo_env demo_repo_empty []
       = (None, [readme_request demo_repo_empty])
   \<and> GitHubIngester_get_all_docs demo_env demo_repo_empty (Suc 0) []
       = Some ([], [readme_request demo_repo_empty, docs_request demo_repo_empty (lit ''docs'')])"
proof -
  have n: "http_get demo_env [] (readme_request demo_repo_empty) = None"
    by (simp add: demo_simps repo_simps)
  have d: "GitHubIngester_get_docs_directory demo_env demo_repo_empty (Suc 0) (lit ''docs'')
        ([] @ [readme_request demo_repo_empty])
      = Some ([], [readme_request demo_repo_empty, docs_request demo_repo_empty (lit ''docs'')])"
    by (simp only: demo_docs_empty_run) simp
  from readme_failure [of demo_env "[]" demo_repo_empty "Suc 0" demo_env demo_repo_empty "[]"
        "[readme_request demo_repo_empty]" "Suc 0"] n
  have "GitHubIngester_get_readme demo_env demo_repo_empty []
        = (None, [] @ [readme_request demo_repo_empty])
      \<and> GitHubIngester_get_all_docs demo_env demo_repo_empty (Suc 0) []
        = GitHubIngester_get_docs_directory demo_env demo_repo_empty (Suc 0) (lit ''docs'')
            ([] @ [readme_request demo_repo_empty])"
    by blast
  then show ?thesis using n d by simp
qed

text \<open>
  C9. When the listing call for a path answers 404, \<open>_get_docs_directory\<close> returns the
  empty list after that one request; so it does for every status \<open>raise_for_status\<close>
  refuses. Inside a listing, a subdirectory whose listing call is refused adds nothing:
  the loop goes on with the entries after it and the documents it had.
\<close>

theorem docs_directory_failure:
  "(http_get e lg (docs_request ing path) = Some r \<and> status_code r = 404 \<longrightarrow>
      GitHubIngester_get_docs_directory e ing (Suc f) path lg
        = Some ([], lg @ [docs_request ing path]))
   \<and> (http_get e lg (docs_request ing path) = Some r \<and> raise_for_status r \<longrightarrow>
      GitHubIngester_get_docs_directory e ing (Suc f) path lg
        = Some ([], lg @ [docs_request ing path]))
   \<and> (e_type it = lit ''dir''
        \<and> http_get e lg (docs_request ing (e_path it)) = Some r' \<and> raise_for_status r' \<longrightarrow>
      docs_items e ing (Suc f) (it # its) docs lg
        = docs_items e ing (Suc f) its docs (lg @ [docs_request ing (e_path it)]))"
proof -
  have nf: "lit ''dir'' \<noteq> lit ''file''" by (simp add: lit_def)
  show ?thesis using nf by (auto simp: Let_def)
qed

theorem docs_directory_failure_witness:
  "http_get demo_env [] (docs_request demo_repo_empty (lit ''docs''))
     = Some \<lparr>status_code = 404, body = []\<rparr>
   \<and> GitHubIngester_get_docs_directory demo_env demo_repo_empty (Suc 0) (lit ''docs'') []
       = Some ([], [docs_request demo_repo_empty (lit ''docs'')])
   \<and> e_type demo_sub = lit ''dir''
   \<and> http_get demo_env [] (docs_request demo_repo (e_path demo_sub))
       = Some \<lparr>status_code = 500, body = []\<rparr>
   \<and> GitHubIngester_get_docs_directory demo_env demo_repo (Suc 0) (e_path demo_sub) []
       = Some ([], [docs_request demo_repo (e_path demo_sub)])
   \<and> docs_items demo_env demo_repo (Suc 0) [demo_sub, demo_file] [] []
       = docs_items demo_env demo_repo (Suc 0) [demo_file] []
           [docs_request demo_repo (e_path demo_sub)]"
proof -
  have h: "http_get demo_env [] (docs_request demo_repo_empty (lit ''docs''))
      = Some \<lparr>status_code = 404, body = []\<rparr>"
    "http_get demo_env [] (docs_request demo_repo (e_path demo_sub))
      = Some \<lparr>status_code = 500, body = []\<rparr>"
    "e_type demo_sub = lit ''dir''"
    "raise_for_status \<lparr>status_code = 500, body = []\<rparr>"
    "status_code \<lparr>status_code = 404, body = []\<rparr> = 404"
    by (simp_all add: demo_answers demo_entries raise_for_status_def)
  from docs_directory_failure [of demo_env "[]" demo_repo_empty "lit ''docs''"
      "\<lparr>status_code = 404, body = []\<rparr>" 0] h
  have a: "GitHubIngester_get_docs_directory demo_env demo_repo_empty (Suc 0) (lit ''docs'') []
       = Some ([], [] @ [docs_request demo_repo_empty (lit ''docs'')])"
    by blast
  from docs_directory_failure [of demo_env "[]" demo_repo "e_path demo_sub"
      "\<lparr>status_code = 500, body = []\<rparr>" 0 demo_sub "\<lparr>status_code = 500, body = []\<rparr>"
      "[demo_file]" "[]"] h
  have b: "GitHubIngester_get_docs_directory demo_env demo_repo (Suc 0) (e_path demo_sub) []
       = Some ([], [] @ [docs_request demo_repo (e_path demo_sub)])"
    and c: "docs_items demo_env demo_repo (Suc 0) (demo_sub # [demo_file]) [] []
       = docs_items demo_env demo_repo (Suc 0) [demo_file] []
           ([] @ [docs_request demo_repo (e_path demo_sub)])"
    by blast+
  show ?thesis using a b c h by simp
qed

section \<open>The content root: what the two crawlers select\<close>

lemma contains_sublist: "contains k c = sublist k c"
  by (induction c) (simp_all add: sublist_Cons_right)

lemma class_search_iff:
  "class_search kws n = (\<exists>c k. attr n (lit ''class'') = Some c \<and> k \<in> set kws \<and> sublist k c)"
  by (auto simp: class_search_def contains_sublist list_ex_iff split: option.splits)

lemma find_node_None: "\<not> has P soup \<Longrightarrow> find_node P soup = None"
  by (simp add: has_def find_node_def find_None_iff list_ex_iff)

lemma find_node_Some: "has P soup \<Longrightarrow> \<exists>n. find_node P soup = Some n"
  by (cases "find_node P soup") (auto simp: has_def find_node_def find_None_iff list_ex_iff)

lemma or_else_simps [simp]: "or_else None b = b" "or_else (Some x) b = Some x"
  by (simp_all add: or_else_def)

lemma rtd_main_content_levels:
  "rtd_main_content soup =
     (if has role_main soup then find_node role_main soup
      else if has (named [lit ''main'']) soup then find_node (named [lit ''main'']) soup
      else if has (named [lit ''article'']) soup then find_node (named [lit ''article'']) soup
      else if has rtd_class soup then find_node rtd_class soup
      else find_node (named [lit ''body'']) soup)"
proof -
  have e: "rtd_main_content soup =
      or_else (find_node role_main soup)
     (or_else (find_node (named [lit ''main'']) soup)
     (or_else (find_node (named [lit ''article'']) soup)
     (or_else (find_node rtd_class soup) (find_node (named [lit ''body'']) soup))))"
    by (simp add: rtd_main_content_def role_main_def [abs_def] rtd_class_def [abs_def])
  show ?thesis
    unfolding e
    using find_node_None [of role_main soup] find_node_Some [of role_main soup]
      find_node_None [of "named [lit ''main'']" soup] find_node_Some [of "named [lit ''main'']" soup]
      find_node_None [of "named [lit ''article'']" soup]
      find_node_Some [of "named [lit ''article'']" soup]
      find_node_None [of rtd_class soup] find_node_Some [of rtd_class soup]
    by auto
qed

lemma website_main_content_levels:
  "website_main_content soup =
     (if has (named [lit ''main'']) soup then find_node (named [lit ''main'']) soup
      else if has (named [lit ''article'']) soup then find_node (named [lit ''article'']) soup
      else if has web_class soup then find_node web_class soup
      else find_node (named [lit ''body'']) soup)"
proof -
  have e: "website_main_content soup =
      or_else (find_node (named [lit ''main'']) soup)
     (or_else (find_node (named [lit ''article'']) soup)
     (or_else (find_node web_class soup) (find_node (named [lit ''body'']) soup)))"
    by (simp add: website_main_content_def web_class_def [abs_def])
  show ?thesis
    unfolding e
    using find_node_None [of "named [lit ''main'']" soup] find_node_Some [of "named [lit ''main'']" soup]
      find_node_None [of "named [lit ''article'']" soup]
      find_node_Some [of "named [lit ''article'']" soup]
      find_node_None [of web_class soup] find_node_Some [of web_class soup]
    by auto
qed

lemma find_node_first:
  "find_node P soup = Some n \<longleftrightarrow>
     (\<exists>i < length (descendants soup). descendants soup ! i = n \<and> P n
        \<and> (\<forall>j < i. \<not> P (descendants soup ! j)))"
  by (auto simp: find_node_def find_Some_iff)

lemma website_scrape_no_root:
  assumes "http_get e lg (get_request u [] (Some 10)) = Some r" "\<not> raise_for_status r"
  shows "\<exists>d. WebsiteIngester_scrape_page e u lg = (Inr d, lg @ [get_request u [] (Some 10)])
     \<and> (website_main_content (decompose_all
            [lit ''nav'', lit ''footer'', lit ''script'', lit ''style'', lit ''aside'',
             lit ''header''] (html_parser e (body r))) = None \<longrightarrow> content d = [])"
  using assms by (auto simp: WebsiteIngester_scrape_page_def Let_def)

lemmas page_simps = caps_page_def caps_body_def caps_div_def role_page_def role_first_def
  role_div_def

text \<open>
  C5 as stated fails. The class match of the source is case sensitive: a \<open>div\<close> of class
  \<open>Content\<close> is not taken, and both crawlers fall back to the body where the
  specification's rule takes the \<open>div\<close>. The website crawler has no role level: it
  takes the \<open>main\<close> element where the specification's rule takes the \<open>div\<close> of role
  \<open>main\<close>.
\<close>

theorem content_root_differs:
  "rtd_main_content caps_page = Some caps_body
   \<and> website_main_content caps_page = Some caps_body
   \<and> spec_main_content caps_page = Some caps_div
   \<and> caps_body \<noteq> caps_div
   \<and> website_main_content role_page = Some role_first
   \<and> spec_main_content role_page = Some role_div
   \<and> role_first \<noteq> role_div"
  by (simp add: rtd_main_content_def website_main_content_def spec_main_content_def
      spec_class_match_def class_search_def find_node_def page_simps lit_def lower_def)

text \<open>
  C5, as amended. The doc-site crawler takes the first \<open>div\<close> of role \<open>main\<close>, else
  the first \<open>main\<close> element, else the first \<open>article\<close> element, else the first \<open>div\<close>
  whose class attribute holds \<open>content\<close>, \<open>document\<close> or \<open>body\<close> as written (case
  sensitive), else the body. The website crawler takes the first \<open>main\<close> element, else
  the first \<open>article\<close> element, else the first \<open>div\<close> whose class attribute holds
  \<open>content\<close>, \<open>main\<close>, \<open>article\<close> or \<open>body\<close> as written, else the body. First means
  first in document order. When the website crawler finds no root, the page is still
  scraped without error, and its content is empty.
\<close>

theorem content_root_priority:
  "rtd_main_content soup =
     (if has role_main soup then find_node role_main soup
      else if has (named [lit ''main'']) soup then find_node (named [lit ''main'']) soup
      else if has (named [lit ''article'']) soup then find_node (named [lit ''article'']) soup
      else if has rtd_class soup then find_node rtd_class soup
      else find_node (named [lit ''body'']) soup)
   \<and> website_main_content soup =
     (if has (named [lit ''main'']) soup then find_node (named [lit ''main'']) soup
      else if has (named [lit ''article'']) soup then find_node (named [lit ''article'']) soup
      else if has web_class soup then find_node web_class soup
      else find_node (named [lit ''body'']) soup)
   \<and> (find_node P soup = Some n \<longleftrightarrow>
        (\<exists>i < length (descendants soup). descendants soup ! i = n \<and> P n
           \<and> (\<forall>j < i. \<not> P (descendants soup ! j))))
   \<and> (rtd_class m \<longleftrightarrow> named [lit ''div''] m
        \<and> (\<exists>c k. attr m (lit ''class'') = Some c
              \<and> k \<in> {lit ''content'', lit ''document'', lit ''body''} \<and> sublist k c))
   \<and> (web_class m \<longleftrightarrow> named [lit ''div''] m
        \<and> (\<exists>c k. attr m (lit ''class'') = Some c
              \<and> k \<in> {lit ''content'', lit ''main'', lit ''article'', lit ''body''}
              \<and> sublist k c))
   \<and> (http_get e lg (get_request u [] (Some 10)) = Some r \<and> \<not> raise_for_status r \<longrightarrow>
        (\<exists>d. WebsiteIngester_scrape_page e u lg = (Inr d, lg @ [get_request u [] (Some 10)])
           \<and> (website_main_content (decompose_all
                  [lit ''nav'', lit ''footer'', lit ''script'', lit ''style'', lit ''aside'',
                   lit ''header''] (html_parser e (body r))) = None \<longrightarrow> content d = [])))"
proof (intro conjI)
  show "rtd_class m \<longleftrightarrow> named [lit ''div''] m
        \<and> (\<exists>c k. attr m (lit ''class'') = Some c
              \<and> k \<in> {lit ''content'', lit ''document'', lit ''body''} \<and> sublist k c)"
    unfolding rtd_class_def class_search_iff by auto
  show "web_class m \<longleftrightarrow> named [lit ''div''] m
        \<and> (\<exists>c k. attr m (lit ''class'') = Some c
              \<and> k \<in> {lit ''content'', lit ''main'', lit ''article'', lit ''body''}
              \<and> sublist k c)"
    unfolding web_class_def class_search_iff by auto
  show "http_get e lg (get_request u [] (Some 10)) = Some r \<and> \<not> raise_for_status r \<longrightarrow>
        (\<exists>d. WebsiteIngester_scrape_page e u lg = (Inr d, lg @ [get_request u [] (Some 10)])
           \<and> (website_main_content (decompose_all
                  [lit ''nav'', lit ''footer'', lit ''script'', lit ''style'', lit ''aside'',
                   lit ''header''] (html_parser e (body r))) = None \<longrightarrow> content d = []))"
    using website_scrape_no_root [of e lg u r] by blast
qed (rule rtd_main_content_levels website_main_content_levels find_node_first)+

theorem content_root_priority_witness:
  "rtd_main_content caps_page = Some caps_body
   \<and> \<not> rtd_class caps_div
   \<and> website_main_content role_page = Some role_first
   \<and> http_get demo_env [] (get_request (lit ''a/y'') [] (Some 10))
       = Some \<lparr>status_code = 200, body = lit ''a/y''\<rparr>
   \<and> WebsiteIngester_scrape_page demo_env (lit ''a/y'') []
       = (Inr (demo_leaf (lit ''website'') (lit ''a/y'') (lit ''y'') []),
          [get_request (lit ''a/y'') [] (Some 10)])"
proof -
  have h: "http_get demo_env [] (get_request (lit ''a/y'') [] (Some 10))
       = Some \<lparr>status_code = 200, body = lit ''a/y''\<rparr>"
    "\<not> raise_for_status \<lparr>status_code = 200, body = lit ''a/y''\<rparr>"
    by (simp_all add: demo_simps)
  have l: "has (named [lit ''body'']) caps_page" "\<not> has role_main caps_page"
    "\<not> has (named [lit ''main'']) caps_page" "\<not> has (named [lit ''article'']) caps_page"
    "\<not> has rtd_class caps_page" "has (named [lit ''main'']) role_page"
    "find_node (named [lit ''body'']) caps_page = Some caps_body"
    "find_node (named [lit ''main'']) role_page = Some role_first"
    by (simp_all add: has_def find_node_def role_main_def rtd_class_def class_search_def
        page_simps lit_def)
  have s: "WebsiteIngester_scrape_page demo_env (lit ''a/y'') []
       = (Inr (demo_leaf (lit ''website'') (lit ''a/y'') (lit ''y'') []),
          [get_request (lit ''a/y'') [] (Some 10)])"
    by (simp add: WebsiteIngester_scrape_page_def demo_simps scrape_simps
        website_main_content_def demo_leaf_def split_last_def)
  have c: "\<not> rtd_class caps_div"
    by (simp add: rtd_class_def class_search_def caps_div_def lit_def)
  have a: "rtd_main_content caps_page = Some caps_body"
    using content_root_priority [of caps_page "named [lit ''body'']" caps_body caps_div
        demo_env "[]" "lit ''a/y''" "\<lparr>status_code = 200, body = lit ''a/y''\<rparr>"] l
    by presburger
  have b: "website_main_content role_page = Some role_first"
    using content_root_priority [of role_page "named [lit ''main'']" role_first caps_div
        demo_env "[]" "lit ''a/y''" "\<lparr>status_code = 200, body = lit ''a/y''\<rparr>"] l
    by presburger
  show ?thesis using a b c h(1) s by blast
qed

declare digits.simps [simp del]

section \<open>Persistence: reading back what was written\<close>

subsection \<open>Strings\<close>

lemma hexval_hexdigit: "d < 16 \<Longrightarrow> hexval (hexdigit d) = Some d"
  by (auto simp: hexval_def hexdigit_def)

lemma hex4_low: "c < 32 \<Longrightarrow> hex4 48 48 (hexdigit (c div 16)) (hexdigit (c mod 16)) = Some c"
proof -
  assume c: "c < 32"
  then have "c div 16 < 16" "c mod 16 < 16" by auto
  then have "hexval (hexdigit (c div 16)) = Some (c div 16)"
    "hexval (hexdigit (c mod 16)) = Some (c mod 16)"
    by (simp_all add: hexval_hexdigit)
  moreover have "hexval 48 = Some 0" by (simp add: hexval_def)
  ultimately show ?thesis by (simp add: hex4_def)
qed

lemma scan_escape_char:
  "scan_string (escape_char c @ rest) = map_option (\<lambda>(s, r). (c # s, r)) (scan_string rest)"
proof -
  consider (dquote) "c = 34" | (bslash) "c = 92" | (short) "c \<in> {10, 13, 9, 8, 12}"
    | (ctrl) "c < 32" "c \<notin> {10, 13, 9, 8, 12}" | (plain) "32 \<le> c" "c \<noteq> 34" "c \<noteq> 92"
    by fastforce
  then show ?thesis
  proof cases
    case dquote
    then show ?thesis by (simp add: escape_char_def scan_escape_def unescape_def)
  next
    case bslash
    then show ?thesis by (simp add: escape_char_def scan_escape_def unescape_def)
  next
    case short
    then show ?thesis by (auto simp: escape_char_def scan_escape_def unescape_def)
  next
    case ctrl
    then have e: "escape_char c = [92, 117, 48, 48, hexdigit (c div 16), hexdigit (c mod 16)]"
      by (simp add: escape_char_def)
    show ?thesis
      using ctrl(1) by (simp add: e scan_escape_def hex4_low)
  next
    case plain
    then show ?thesis by (simp add: escape_char_def)
  qed
qed

lemma scan_escaped:
  "scan_string (concat (map escape_char s) @ 34 # rest) = Some (s, rest)"
  by (induction s) (simp_all add: scan_escape_char)

lemma tokenize_encode_string:
  "tokenize (encode_string s @ rest) = map_option (Cons (TStr s)) (tokenize rest)"
  by (simp add: encode_string_def scan_escaped)

text \<open>Characters that need no escape are written as they are.\<close>

lemma encode_string_plain:
  "\<forall>c \<in> set s. 32 \<le> c \<and> c \<noteq> 34 \<and> c \<noteq> 92 \<Longrightarrow> encode_string s = [34] @ s @ [34]"
  by (induction s) (auto simp: encode_string_def escape_char_def)

subsection \<open>Numbers\<close>

lemma digits_are_digits: "\<forall>c \<in> set (digits n). is_digit c"
proof (induction n rule: digits.induct)
  case (1 n)
  show ?case
  proof (cases "n < 10")
    case True
    then show ?thesis by (simp add: digits.simps [of n] is_digit_def)
  next
    case False
    have "n mod 10 < 10" by simp
    then have "is_digit (48 + n mod 10)" unfolding is_digit_def by linarith
    then show ?thesis using False 1 by (simp add: digits.simps [of n])
  qed
qed

lemma digits_not_empty: "digits n \<noteq> []"
  by (simp add: digits.simps [of n])

lemma digits_value_snoc: "digits_value (ds @ [d]) = 10 * digits_value ds + (d - 48)"
  by (simp add: digits_value_def)

lemma digits_value_digits: "digits_value (digits n) = n"
proof (induction n rule: digits.induct)
  case (1 n)
  show ?case
  proof (cases "n < 10")
    case True
    then show ?thesis by (simp add: digits.simps [of n] digits_value_def)
  next
    case False
    then show ?thesis using 1 by (simp add: digits.simps [of n] digits_value_snoc)
  qed
qed

lemma digits_hd: "hd (digits n) = 48 \<Longrightarrow> length (digits n) = 1"
proof (induction n rule: digits.induct)
  case (1 n)
  show ?case
  proof (cases "n < 10")
    case True
    then show ?thesis by (simp add: digits.simps [of n])
  next
    case False
    then have d: "digits n = digits (n div 10) @ [48 + n mod 10]"
      by (simp add: digits.simps [of n])
    then have "hd (digits (n div 10)) = 48"
      using "1.prems" digits_not_empty [of "n div 10"] by simp
    then have l: "length (digits (n div 10)) = 1" using "1.IH" False by simp
    then obtain x where x: "digits (n div 10) = [x]"
      by (cases "digits (n div 10)") auto
    then have "x = 48" using \<open>hd (digits (n div 10)) = 48\<close> by simp
    then have "digits_value (digits (n div 10)) = 0" using x by (simp add: digits_value_def)
    then have "n div 10 = 0" by (simp add: digits_value_digits)
    then show ?thesis using False by simp
  qed
qed

lemma scan_nat_digits:
  assumes "stops rest"
  shows "scan_nat (digits n @ rest) = Some (n, rest)"
proof -
  have nd: "rest = [] \<or> \<not> is_digit (hd rest)" using assms by (auto simp: stops_def)
  have tw: "takeWhile is_digit (digits n @ rest) = digits n"
    using digits_are_digits [of n] nd by (cases rest) (auto simp: takeWhile_append2)
  have dw: "dropWhile is_digit (digits n @ rest) = rest"
    using digits_are_digits [of n] nd by (cases rest) (auto simp: dropWhile_append2)
  have z: "\<not> (hd (digits n) = 48 \<and> 1 < length (digits n))"
    using digits_hd [of n] by auto
  have r: "\<not> (rest \<noteq> [] \<and> hd rest \<in> {46, 101, 69})"
    using assms by (auto simp: stops_def)
  show ?thesis
    unfolding scan_nat_def Let_def tw dw
    using z r digits_not_empty [of n] by (simp add: digits_value_digits)
qed

lemma tokenize_encode_int:
  assumes "stops rest"
  shows "tokenize (encode_int i @ rest) = map_option (Cons (TInt i)) (tokenize rest)"
proof (cases "i < 0")
  case True
  then show ?thesis
    using scan_nat_digits [OF assms, of "nat (- i)"] by (simp add: encode_int_def)
next
  case False
  obtain d ds where d: "digits (nat i) = d # ds"
    using digits_not_empty [of "nat i"] by (cases "digits (nat i)") auto
  have dig: "is_digit d" using digits_are_digits [of "nat i"] d by simp
  then have ne: "d \<notin> {32, 9, 10, 13}" "d \<noteq> 91" "d \<noteq> 93" "d \<noteq> 123" "d \<noteq> 125" "d \<noteq> 44"
    "d \<noteq> 58" "d \<noteq> 34" "d \<noteq> 45"
    by (auto simp: is_digit_def)
  have "scan_nat (d # ds @ rest) = Some (nat i, rest)"
    using scan_nat_digits [OF assms, of "nat i"] d by simp
  then show ?thesis
    using False d dig ne by (simp add: encode_int_def)
qed

subsection \<open>The tokens of a written value\<close>

lemma tokenize_spaces: "tokenize (replicate n 32 @ rest) = tokenize rest"
  by (induction n) simp_all

lemma tokenize_newline_indent: "tokenize (newline_indent level @ rest) = tokenize rest"
  by (simp add: newline_indent_def tokenize_spaces)

lemma tokenize_words:
  assumes "tokenize rest = Some ts"
  shows "tokenize (lit ''null'' @ rest) = Some (TNull # ts)"
    "tokenize (lit ''true'' @ rest) = Some (TTrue # ts)"
    "tokenize (lit ''false'' @ rest) = Some (TFalse # ts)"
    "tokenize (lit ''[]'' @ rest) = Some (TLBrack # TRBrack # ts)"
    "tokenize (lit ''{}'' @ rest) = Some (TLBrace # TRBrace # ts)"
  using assms by (simp_all add: lit_def is_digit_def)

lemma stops_simps [simp]: "stops (NL # xs)" "stops (44 # xs)" "stops []"
  "stops (newline_indent level @ xs)"
  by (simp_all add: stops_def is_digit_def newline_indent_def)

lemma tokenize_dump:
  "stops rest \<Longrightarrow> tokenize rest = Some ts \<Longrightarrow>
     tokenize (dump level v @ rest) = Some (toks v @ ts)"
  "stops rest \<Longrightarrow> tokenize rest = Some ts \<Longrightarrow>
     tokenize (dump_items level vs @ rest) = Some (toks_items vs @ ts)"
  "stops rest \<Longrightarrow> tokenize rest = Some ts \<Longrightarrow>
     tokenize (dump_pairs level kvs @ rest) = Some (toks_pairs kvs @ ts)"
proof (induction level v and level vs and level kvs arbitrary: rest ts and rest ts and rest ts
    rule: dump_dump_items_dump_pairs.induct)
  case (1 level)
  then show ?case by (simp add: tokenize_words)
next
  case (2 level b)
  then show ?case by (simp add: tokenize_words)
next
  case (3 level i)
  then show ?case by (simp add: tokenize_encode_int)
next
  case (4 level s)
  then show ?case by (simp add: tokenize_encode_string)
next
  case (5 level vs)
  show ?case
  proof (cases "vs = []")
    case True
    then show ?thesis using 5 by (simp add: tokenize_words)
  next
    case False
    have "tokenize (newline_indent level @ 93 # rest) = Some (TRBrack # ts)"
      using "5.prems" by (simp add: tokenize_newline_indent)
    then have "tokenize (dump_items (Suc level) vs @ newline_indent level @ 93 # rest)
        = Some (toks_items vs @ TRBrack # ts)"
      by (intro "5.IH" [OF False]) simp_all
    then show ?thesis
      using False by (simp add: tokenize_newline_indent)
  qed
next
  case (6 level kvs)
  show ?case
  proof (cases "kvs = []")
    case True
    then show ?thesis using 6 by (simp add: tokenize_words)
  next
    case False
    have "tokenize (newline_indent level @ 125 # rest) = Some (TRBrace # ts)"
      using "6.prems" by (simp add: tokenize_newline_indent)
    then have "tokenize (dump_pairs (Suc level) kvs @ newline_indent level @ 125 # rest)
        = Some (toks_pairs kvs @ TRBrace # ts)"
      by (intro "6.IH" [OF False]) simp_all
    then show ?thesis
      using False by (simp add: tokenize_newline_indent)
  qed
next
  case (7 level)
  then show ?case by simp
next
  case (8 level v vs)
  show ?case
  proof (cases "vs = []")
    case True
    then show ?thesis using "8.IH"(1) [OF "8.prems"] by simp
  next
    case False
    have b: "tokenize (dump_items level vs @ rest) = Some (toks_items vs @ ts)"
      by (rule "8.IH"(2) [OF False "8.prems"])
    then have "tokenize (44 # newline_indent level @ dump_items level vs @ rest)
        = Some (TComma # toks_items vs @ ts)"
      by (simp add: tokenize_newline_indent)
    then have "tokenize (dump level v @ 44 # newline_indent level @ dump_items level vs @ rest)
        = Some (toks v @ TComma # toks_items vs @ ts)"
      by (intro "8.IH"(1)) simp_all
    then show ?thesis using False by simp
  qed
next
  case (9 level)
  then show ?case by simp
next
  case (10 level kv kvs)
  show ?case
  proof (cases "kvs = []")
    case True
    have "tokenize (dump level (snd kv) @ rest) = Some (toks (snd kv) @ ts)"
      by (rule "10.IH"(1) [OF "10.prems"])
    then show ?thesis
      using True by (simp add: tokenize_encode_string)
  next
    case False
    have b: "tokenize (dump_pairs level kvs @ rest) = Some (toks_pairs kvs @ ts)"
      by (rule "10.IH"(2) [OF False "10.prems"])
    then have "tokenize (44 # newline_indent level @ dump_pairs level kvs @ rest)
        = Some (TComma # toks_pairs kvs @ ts)"
      by (simp add: tokenize_newline_indent)
    then have "tokenize (dump level (snd kv) @ 44 # newline_indent level
          @ dump_pairs level kvs @ rest)
        = Some (toks (snd kv) @ TComma # toks_pairs kvs @ ts)"
      by (intro "10.IH"(1)) simp_all
    then show ?thesis
      using False by (simp add: tokenize_encode_string)
  qed
qed

lemma tokenize_json_dumps: "tokenize (json_dumps v) = Some (toks v)"
  using tokenize_dump(1) [of "[]" "[]" 0 v] by (simp add: json_dumps_def)

subsection \<open>The value of the tokens\<close>

lemma py_dict_distinct:
  "distinct (map fst (d @ kvs)) \<Longrightarrow> foldl dict_set d kvs = d @ kvs"
proof (induction kvs arbitrary: d)
  case Nil
  show ?case by simp
next
  case (Cons kv kvs)
  have "fst kv \<notin> fst ` set d" using Cons.prems by auto
  then have "dict_set d kv = d @ [kv]" by (simp add: dict_set_def)
  then show ?case using Cons.IH [of "d @ [kv]"] Cons.prems by simp
qed

lemma py_dict_id: "distinct (map fst kvs) \<Longrightarrow> py_dict kvs = kvs"
  using py_dict_distinct [of "[]" kvs] by (simp add: py_dict_def)

lemma toks_first: "\<exists>t r. toks v = t # r \<and> t \<noteq> TRBrack \<and> t \<noteq> TRBrace"
  by (cases v) auto

lemma need_fits:
  "need v \<le> length (toks v)"
  "need_items vs \<le> Suc (length (toks_items vs))"
  "need_pairs kvs \<le> Suc (length (toks_pairs kvs))"
  by (induction v and vs and kvs rule: need_need_items_need_pairs.induct) auto

lemma parse_toks:
  "dict_like v \<Longrightarrow> need v \<le> f \<Longrightarrow> parse_value f (toks v @ rest) = Some (v, rest)"
  "vs \<noteq> [] \<Longrightarrow> dict_like_items vs \<Longrightarrow> need_items vs \<le> f \<Longrightarrow>
     parse_items f (toks_items vs @ TRBrack # rest) = Some (vs, rest)"
  "kvs \<noteq> [] \<Longrightarrow> dict_like_pairs kvs \<Longrightarrow> need_pairs kvs \<le> f \<Longrightarrow>
     parse_pairs f (toks_pairs kvs @ TRBrace # rest) = Some (kvs, rest)"
proof (induction v and vs and kvs arbitrary: f rest and f rest and f rest
    rule: need_need_items_need_pairs.induct)
  case (1 vs)
  then obtain g where f: "f = Suc g" and g: "need_items vs \<le> g" by (cases f) auto
  show ?case
  proof (cases "vs = []")
    case True
    then show ?thesis by (simp add: f)
  next
    case False
    then obtain v ws where vs: "vs = v # ws" by (cases vs) auto
    obtain t r where t: "toks v = t # r" "t \<noteq> TRBrack" using toks_first [of v] by blast
    have "parse_items g (toks_items vs @ TRBrack # rest) = Some (vs, rest)"
      using "1.IH" [OF False _ g] "1.prems"(1) by simp
    moreover have "toks_items vs @ TRBrack # rest = t # (r @ (if ws = [] then [] else TComma # toks_items ws) @ TRBrack # rest)"
      by (simp add: vs t)
    ultimately show ?thesis
      using t(2) by (cases t) (simp_all add: f)
  qed
next
  case (2 kvs)
  then obtain g where f: "f = Suc g" and g: "need_pairs kvs \<le> g" by (cases f) auto
  have d: "distinct (map fst kvs)" "dict_like_pairs kvs" using "2.prems"(1) by simp_all
  show ?case
  proof (cases "kvs = []")
    case True
    then show ?thesis by (simp add: f)
  next
    case False
    then obtain kv ws where kvs: "kvs = kv # ws" by (cases kvs) auto
    have "parse_pairs g (toks_pairs kvs @ TRBrace # rest) = Some (kvs, rest)"
      using "2.IH" [OF False d(2) g] by simp
    moreover have "toks_pairs kvs @ TRBrace # rest
        = TStr (fst kv) # (TColon # toks (snd kv) @ (if ws = [] then [] else TComma # toks_pairs ws) @ TRBrace # rest)"
      by (simp add: kvs)
    ultimately show ?thesis
      using d(1) by (simp add: f py_dict_id)
  qed
next
  case 3
  then show ?case by (cases f) simp_all
next
  case (4 b)
  then show ?case by (cases f) simp_all
next
  case (5 i)
  then show ?case by (cases f) simp_all
next
  case (6 s)
  then show ?case by (cases f) simp_all
next
  case 7
  then show ?case by simp
next
  case (8 v vs)
  then obtain g where f: "f = Suc g" and g: "need v \<le> g" "need_items vs \<le> g"
    by (cases f) auto
  have dl: "dict_like v" "dict_like_items vs" using "8.prems"(2) by simp_all
  show ?case
  proof (cases "vs = []")
    case True
    have "parse_value g (toks v @ TRBrack # rest) = Some (v, TRBrack # rest)"
      by (rule "8.IH"(1) [OF dl(1) g(1)])
    then show ?thesis using True by (simp add: f)
  next
    case False
    have a: "parse_value g (toks v @ TComma # toks_items vs @ TRBrack # rest)
        = Some (v, TComma # toks_items vs @ TRBrack # rest)"
      by (rule "8.IH"(1) [OF dl(1) g(1)])
    have b: "parse_items g (toks_items vs @ TRBrack # rest) = Some (vs, rest)"
      by (rule "8.IH"(2) [OF False dl(2) g(2)])
    show ?thesis using False a b by (simp add: f)
  qed
next
  case 9
  then show ?case by simp
next
  case (10 kv kvs)
  then obtain g where f: "f = Suc g" and g: "need (snd kv) \<le> g" "need_pairs kvs \<le> g"
    by (cases f) auto
  have dl: "dict_like (snd kv)" "dict_like_pairs kvs" using "10.prems"(2) by simp_all
  show ?case
  proof (cases "kvs = []")
    case True
    have "parse_value g (toks (snd kv) @ TRBrace # rest) = Some (snd kv, TRBrace # rest)"
      by (rule "10.IH"(1) [OF dl(1) g(1)])
    then show ?thesis using True by (simp add: f)
  next
    case False
    have a: "parse_value g (toks (snd kv) @ TComma # toks_pairs kvs @ TRBrace # rest)
        = Some (snd kv, TComma # toks_pairs kvs @ TRBrace # rest)"
      by (rule "10.IH"(1) [OF dl(1) g(1)])
    have b: "parse_pairs g (toks_pairs kvs @ TRBrace # rest) = Some (kvs, rest)"
      by (rule "10.IH"(2) [OF False dl(2) g(2)])
    show ?thesis using False a b by (simp add: f)
  qed
qed

lemma json_round_trip: "dict_like v \<Longrightarrow> json_loads (json_dumps v) = Some v"
  using parse_toks(1) [of v "length (toks v)" "[]"] need_fits(1) [of v]
  by (simp add: json_loads_def tokenize_json_dumps)

subsection \<open>What can be written\<close>

lemma surrogate_ascii [simp]: "c < 128 \<Longrightarrow> \<not> surrogate c"
  by (simp add: surrogate_def)

lemma clean_escape_char: "\<not> surrogate c \<Longrightarrow> \<not> list_ex surrogate (escape_char c)"
  by (auto simp: escape_char_def hexdigit_def)

lemma clean_encode_string: "\<not> list_ex surrogate s \<Longrightarrow> \<not> list_ex surrogate (encode_string s)"
  by (induction s) (auto simp: encode_string_def list_ex_iff dest: clean_escape_char)

lemma clean_digits: "\<not> list_ex surrogate (digits n)"
  using digits_are_digits [of n] by (auto simp: list_ex_iff is_digit_def surrogate_def)

lemma clean_encode_int: "\<not> list_ex surrogate (encode_int i)"
  using clean_digits by (simp add: encode_int_def)

lemma clean_newline_indent: "\<not> list_ex surrogate (newline_indent level)"
  by (simp add: newline_indent_def list_ex_iff)

lemma clean_dump:
  "encodable v \<Longrightarrow> \<not> list_ex surrogate (dump level v)"
  "encodable_items vs \<Longrightarrow> \<not> list_ex surrogate (dump_items level vs)"
  "encodable_pairs kvs \<Longrightarrow> \<not> list_ex surrogate (dump_pairs level kvs)"
proof (induction level v and level vs and level kvs rule: dump_dump_items_dump_pairs.induct)
  case (1 level)
  show ?case by (simp add: lit_def)
next
  case (2 level b)
  show ?case by (simp add: lit_def)
next
  case (3 level i)
  show ?case by (simp add: clean_encode_int)
next
  case (4 level s)
  then show ?case by (simp add: clean_encode_string)
next
  case (5 level vs)
  then show ?case by (auto simp: lit_def clean_newline_indent)
next
  case (6 level kvs)
  then show ?case by (auto simp: lit_def clean_newline_indent)
next
  case (7 level)
  show ?case by simp
next
  case (8 level v vs)
  then show ?case by (auto simp: clean_newline_indent)
next
  case (9 level)
  show ?case by simp
next
  case (10 level kv kvs)
  then show ?case by (auto simp: clean_newline_indent clean_encode_string)
qed

lemma encodable_items_all: "encodable_items vs = (\<forall>v \<in> set vs. encodable v)"
  by (induction vs) auto

lemma dict_like_items_all: "dict_like_items vs = (\<forall>v \<in> set vs. dict_like v)"
  by (induction vs) auto

lemma dict_like_to_dict: "dict_like (JObj (metadata d)) \<Longrightarrow> dict_like (to_dict d)"
  by (simp add: to_dict_def lit_def)

lemma save_then_load:
  assumes "\<forall>d \<in> set docs. dict_like (JObj (metadata d)) \<and> encodable (to_dict d)"
  shows "save_documents docs path fs = Inr (fs(path \<mapsto> json_dumps (JArr (map to_dict docs))))"
    and "json_loads (json_dumps (JArr (map to_dict docs))) = Some (JArr (map to_dict docs))"
proof -
  have "encodable (JArr (map to_dict docs))"
    using assms by (simp add: encodable_items_all)
  then show "save_documents docs path fs
      = Inr (fs(path \<mapsto> json_dumps (JArr (map to_dict docs))))"
    using clean_dump(1) [of "JArr (map to_dict docs)" 0]
    by (simp add: save_documents_def json_dumps_def Let_def)
  have "dict_like (JArr (map to_dict docs))"
    using assms by (simp add: dict_like_items_all dict_like_to_dict)
  then show "json_loads (json_dumps (JArr (map to_dict docs))) = Some (JArr (map to_dict docs))"
    by (rule json_round_trip)
qed

text \<open>The string of every top-level field stands in the text as its encoder wrote it.\<close>

lemma sublist_inside: "sublist xs ys \<Longrightarrow> sublist xs (ps @ ys @ ss)"
  using sublist_appendI [of ys ps ss] sublist_order.order_trans by blast

lemma sublist_dump_items:
  "v \<in> set vs \<Longrightarrow> sublist (dump level v) (dump_items level vs)"
proof (induction vs)
  case Nil
  then show ?case by simp
next
  case (Cons w vs)
  show ?case
  proof (cases "v = w")
    case True
    have "sublist (dump level w) ([] @ dump level w
        @ (if vs = [] then [] else [44] @ newline_indent level @ dump_items level vs))"
      by (rule sublist_appendI)
    then show ?thesis using True by simp
  next
    case False
    then have "v \<in> set vs" "vs \<noteq> []" using Cons.prems by auto
    then have "sublist (dump level v) (dump_items level vs)" using Cons.IH by simp
    then have "sublist (dump level v)
        ((dump level w @ [44] @ newline_indent level) @ dump_items level vs @ [])"
      by (rule sublist_inside)
    then show ?thesis using \<open>vs \<noteq> []\<close> by simp
  qed
qed

lemma sublist_content:
  "sublist (encode_string (content d)) (dump level (to_dict d))"
proof -
  let ?nl = "newline_indent (Suc level)"
  let ?ps = "[123] @ ?nl @ encode_string (lit ''source'') @ [58, 32] @ encode_string (source d)
    @ [44] @ ?nl @ encode_string (lit ''url'') @ [58, 32] @ encode_string (url d)
    @ [44] @ ?nl @ encode_string (lit ''title'') @ [58, 32] @ encode_string (title d)
    @ [44] @ ?nl @ encode_string (lit ''content'') @ [58, 32]"
  let ?ss = "[44] @ ?nl @ encode_string (lit ''metadata'') @ [58, 32]
    @ dump (Suc level) (JObj (metadata d)) @ newline_indent level @ [125]"
  have "dump level (to_dict d) = ?ps @ encode_string (content d) @ ?ss"
    by (simp add: to_dict_def)
  then show ?thesis unfolding sublist_def by blast
qed

lemma content_in_text:
  assumes "d \<in> set docs"
  shows "sublist (encode_string (content d)) (json_dumps (JArr (map to_dict docs)))"
proof -
  have ne: "map to_dict docs \<noteq> []" using assms by auto
  have "sublist (dump 1 (to_dict d)) (dump_items 1 (map to_dict docs))"
    using assms by (intro sublist_dump_items) simp
  then have "sublist (dump 1 (to_dict d))
      (([91] @ newline_indent 1) @ dump_items 1 (map to_dict docs) @ (newline_indent 0 @ [93]))"
    by (rule sublist_inside)
  then have "sublist (dump 1 (to_dict d)) (json_dumps (JArr (map to_dict docs)))"
    using ne by (simp add: json_dumps_def)
  then show ?thesis
    using sublist_content [of d 1] sublist_order.order_trans by blast
qed

text \<open>
  C7, as amended. Let no string of the documents hold a surrogate code point, and let the
  metadata be dicts (distinct keys). Then \<open>save_documents\<close> succeeds; the file holds the
  text of the array of the documents' dicts, whatever it held before, and no other file
  changes; reading the file back gives that array, one object for each document in their
  order, each with the keys \<open>source\<close>, \<open>url\<close>, \<open>title\<close>, \<open>content\<close>, \<open>metadata\<close> in this
  order and the document's values. A string without quotes, backslashes and control
  characters is written as it is between quotes, non-ASCII characters too, and the content
  of every document stands in the text as the encoder wrote it.
\<close>

theorem save_documents_round_trip:
  "((\<forall>d \<in> set docs. dict_like (JObj (metadata d)) \<and> encodable (to_dict d)) \<longrightarrow>
      save_documents docs output_file fs
        = Inr (fs(output_file \<mapsto> json_dumps (JArr (map to_dict docs))))
      \<and> load_documents output_file (fs(output_file \<mapsto> json_dumps (JArr (map to_dict docs))))
        = Some (JArr (map to_dict docs)))
   \<and> length (map to_dict docs) = length docs
   \<and> to_dict d =
       JObj [(lit ''source'', JStr (source d)), (lit ''url'', JStr (url d)),
             (lit ''title'', JStr (title d)), (lit ''content'', JStr (content d)),
             (lit ''metadata'', JObj (metadata d))]
   \<and> (save_documents docs output_file fs = Inr fs' \<longrightarrow>
        fs' output_file = Some (json_dumps (JArr (map to_dict docs)))
        \<and> (\<forall>p. p \<noteq> output_file \<longrightarrow> fs' p = fs p))
   \<and> ((\<forall>c \<in> set s. 32 \<le> c \<and> c \<noteq> 34 \<and> c \<noteq> 92) \<longrightarrow> encode_string s = [34] @ s @ [34])
   \<and> (d' \<in> set docs \<longrightarrow>
        sublist (encode_string (content d')) (json_dumps (JArr (map to_dict docs))))"
proof (intro conjI impI)
  assume a: "\<forall>d \<in> set docs. dict_like (JObj (metadata d)) \<and> encodable (to_dict d)"
  show "save_documents docs output_file fs
      = Inr (fs(output_file \<mapsto> json_dumps (JArr (map to_dict docs))))"
    using a by (rule save_then_load(1))
  show "load_documents output_file (fs(output_file \<mapsto> json_dumps (JArr (map to_dict docs))))
      = Some (JArr (map to_dict docs))"
    using save_then_load(2) [OF a] by (simp add: load_documents_def)
next
  show "length (map to_dict docs) = length docs" by simp
next
  show "to_dict d =
       JObj [(lit ''source'', JStr (source d)), (lit ''url'', JStr (url d)),
             (lit ''title'', JStr (title d)), (lit ''content'', JStr (content d)),
             (lit ''metadata'', JObj (metadata d))]"
    by (simp add: to_dict_def)
next
  assume s: "save_documents docs output_file fs = Inr fs'"
  then have fs': "fs' = fs(output_file \<mapsto> json_dumps (JArr (map to_dict docs)))"
    by (auto simp: save_documents_def Let_def split: if_splits)
  show "fs' output_file = Some (json_dumps (JArr (map to_dict docs)))"
    by (simp add: fs')
  show "\<forall>p. p \<noteq> output_file \<longrightarrow> fs' p = fs p"
    by (simp add: fs')
next
  assume "\<forall>c \<in> set s. 32 \<le> c \<and> c \<noteq> 34 \<and> c \<noteq> 92"
  then show "encode_string s = [34] @ s @ [34]" by (rule encode_string_plain)
next
  assume "d' \<in> set docs"
  then show "sublist (encode_string (content d')) (json_dumps (JArr (map to_dict docs)))"
    by (rule content_in_text)
qed

text \<open>
  C7 as stated fails for a document with a surrogate code point in its content: it is
  written unescaped, the UTF-8 encoder of the file refuses it, and \<open>save_documents\<close>
  raises instead of leaving an artifact that can be read back.
\<close>

theorem save_documents_surrogate:
  "save_documents [demo_leaf (lit ''w'') (lit ''u'') (lit ''t'') [55296]] (lit ''f'') Map.empty
     = Inl UnicodeEncodeError"
  by (simp add: save_documents_def json_dumps_def to_dict_def demo_leaf_def encode_string_def
      escape_char_def surrogate_def lit_def Let_def)

theorem save_documents_round_trip_witness:
  "list_all (\<lambda>d. dict_like (JObj (metadata d)) \<and> encodable (to_dict d)) demo_saved
   \<and> save_documents demo_saved (lit ''documents.json'') Map.empty
       = Inr [lit ''documents.json'' \<mapsto> json_dumps (JArr (map to_dict demo_saved))]
   \<and> load_documents (lit ''documents.json'')
        [lit ''documents.json'' \<mapsto> json_dumps (JArr (map to_dict demo_saved))]
       = Some (JArr (map to_dict demo_saved))
   \<and> encode_string [233, 8364] = [34, 233, 8364, 34]
   \<and> sublist (encode_string [233, 8364, NL])
        (json_dumps (JArr (map to_dict demo_saved)))"
proof -
  have h: "\<forall>d \<in> set demo_saved. dict_like (JObj (metadata d)) \<and> encodable (to_dict d)"
    by (simp add: demo_saved_def demo_intro_def demo_leaf_def to_dict_def lit_def surrogate_def)
  have m: "demo_leaf (lit ''website'') (lit ''a/z'') (lit ''z'') [233, 8364, NL] \<in> set demo_saved"
    "content (demo_leaf (lit ''website'') (lit ''a/z'') (lit ''z'') [233, 8364, NL])
       = [233, 8364, NL]"
    by (simp_all add: demo_saved_def demo_leaf_def)
  have p: "\<forall>c \<in> set [233, 8364]. 32 \<le> c \<and> c \<noteq> 34 \<and> c \<noteq> (92::nat)" by simp
  from save_documents_round_trip [of demo_saved "lit ''documents.json''" Map.empty
      "demo_intro (lit ''website'') (lit ''a/'')" "Map.empty" "[233, 8364]"
      "demo_leaf (lit ''website'') (lit ''a/z'') (lit ''z'') [233, 8364, NL]"] h m p
  show ?thesis by (simp add: list_all_iff)
qed

end
